theory Spec2Isabelle
  imports Main "HOL-Library.Word" "HOL-Library.Multiset" "HOL-Library.Signed_Division"
begin

section \<open>HISAT-3N table: data model\<close>

text \<open>
  The development follows \<open>position_3n_table_backup.h\<close>, \<open>position_3n_table_backup2.h\<close>,
  \<open>position_backup.h\<close> and \<open>hisat_3n_table_mod.cpp\<close>.  Mutation is explicit state
  passing; reads outside a vector (undefined behaviour in C++) are the value \<open>None\<close>.
  Vector indices are \<open>int\<close> in the source and mathematical integers here: the vectors
  indexed are taken to hold fewer than \<open>2 ^ 30\<close> entries, so index arithmetic stays in range.
\<close>

type_synonym u64 = "64 word"

text \<open>\<open>class uniqueID\<close>: the constructor stores the three arguments and clears \<open>removed\<close>.\<close>

record uniqueID =
  readNameID :: u64
  isConverted :: bool
  quality :: char
  removed :: bool

definition new_uniqueID :: "u64 \<Rightarrow> bool \<Rightarrow> char \<Rightarrow> uniqueID" where
  "new_uniqueID InReadNameID InIsConverted InQual =
     \<lparr>readNameID = InReadNameID, isConverted = InIsConverted, quality = InQual, removed = False\<rparr>"

text \<open>
  Modelled from the spec: \<open>PosQuality\<close> and \<open>Alignment\<close> are declared in
  \<open>alignment_3n_table.h\<close>, which is not among the sources; the fields are those of the
  specification's PerBase and Alignment.
\<close>

record PosQuality =
  refPos :: int
  qual :: char
  converted :: bool
  remove :: bool

record Alignment =
  mapped :: bool
  aln_location :: int
  aln_readNameID :: u64
  bases :: "PosQuality list"

text \<open>\<open>class Position\<close> (the mutex is not modelled).\<close>

record Position =
  chromosome :: string
  location :: int
  strand :: char
  convertedQualities :: string
  unconvertedQualities :: string
  uniqueIDs :: "uniqueID list"

definition initialize :: "Position" where
  "initialize =
     \<lparr>chromosome = [], location = - 1, strand = CHR ''?'',
      convertedQualities = [], unconvertedQualities = [], uniqueIDs = []\<rparr>"

definition empty_pos :: "Position \<Rightarrow> bool" where
  "empty_pos p \<longleftrightarrow> convertedQualities p = [] \<and> unconvertedQualities p = []"

section \<open>Searching the read ids\<close>

text \<open>
  \<open>Position::searchReadNameID\<close> of \<open>position_3n_table_backup.h\<close>: the recursive binary
  search.  \<open>/\<close> on \<open>int\<close> truncates, which is \<open>sdiv\<close>.
\<close>

function searchReadNameID :: "uniqueID list \<Rightarrow> u64 \<Rightarrow> int \<Rightarrow> int \<Rightarrow> int option" where
  "searchReadNameID ids rid start end' =
     (if ids = [] then Some 0
      else if start \<le> end' then
        (let middle = (start + end') sdiv 2 in
         if middle < 0 \<or> int (length ids) \<le> middle then None
         else if readNameID (ids ! nat middle) = rid then Some middle
         else if readNameID (ids ! nat middle) > rid
           then searchReadNameID ids rid start (middle - 1)
         else searchReadNameID ids rid (middle + 1) end')
      else Some start)"
  by pat_completeness auto

termination
proof (relation "measure (\<lambda>(ids, rid, start, end'). nat (end' + 1 - start))")
  show "wf (measure (\<lambda>(ids, rid, start, end'). nat (end' + 1 - start)))"
    by simp
next
  fix ids :: "uniqueID list" and rid :: u64 and start end' middle :: int
  assume "start \<le> end'" "middle = (start + end') sdiv 2" "\<not> (middle < 0 \<or> int (length ids) \<le> middle)"
  then have "start \<le> middle" "middle \<le> end'"
    by (auto simp: signed_divide_int_def sgn_if split: if_splits)
  then show "((ids, rid, start, middle - 1), (ids, rid, start, end'))
             \<in> measure (\<lambda>(ids, rid, start, end'). nat (end' + 1 - start))"
       "((ids, rid, middle + 1, end'), (ids, rid, start, end'))
             \<in> measure (\<lambda>(ids, rid, start, end'). nat (end' + 1 - start))"
    by auto
qed

text \<open>
  \<open>Position::searchReadNameID\<close> of \<open>position_3n_table_backup2.h\<close>: the same search as a
  \<open>while\<close> loop, with the midpoint computed as \<open>start + (end - start) / 2\<close> and without
  the test for an empty vector.
\<close>

function searchReadNameID_iter :: "uniqueID list \<Rightarrow> u64 \<Rightarrow> int \<Rightarrow> int \<Rightarrow> int option" where
  "searchReadNameID_iter ids rid start end' =
     (if start \<le> end' then
        (let middle = start + (end' - start) sdiv 2 in
         if middle < 0 \<or> int (length ids) \<le> middle then None
         else if readNameID (ids ! nat middle) = rid then Some middle
         else if readNameID (ids ! nat middle) > rid
           then searchReadNameID_iter ids rid start (middle - 1)
         else searchReadNameID_iter ids rid (middle + 1) end')
      else Some start)"
  by pat_completeness auto

termination
proof (relation "measure (\<lambda>(ids, rid, start, end'). nat (end' + 1 - start))")
  show "wf (measure (\<lambda>(ids, rid, start, end'). nat (end' + 1 - start)))"
    by simp
next
  fix ids :: "uniqueID list" and rid :: u64 and start end' middle :: int
  assume "start \<le> end'" "middle = start + (end' - start) sdiv 2"
  then have "start \<le> middle" "middle \<le> end'"
    by (auto simp: signed_divide_int_def sgn_if split: if_splits)
  then show "((ids, rid, start, middle - 1), (ids, rid, start, end'))
             \<in> measure (\<lambda>(ids, rid, start, end'). nat (end' + 1 - start))"
       "((ids, rid, middle + 1, end'), (ids, rid, start, end'))
             \<in> measure (\<lambda>(ids, rid, start, end'). nat (end' + 1 - start))"
    by auto
qed

text \<open>
  \<open>Position::searchReadNameID\<close> of \<open>position_backup.h\<close> calls \<open>std::lower_bound\<close> over the
  whole vector with the comparison \<open>u.readNameID < id\<close>.  \<open>lower_bound_from\<close> is the
  library's loop on the pair (first, len): halve \<open>len\<close>, look at \<open>first + half\<close>, keep
  the right part when the element there compares less, the left part otherwise.
\<close>

function lower_bound_from :: "uniqueID list \<Rightarrow> u64 \<Rightarrow> nat \<Rightarrow> nat \<Rightarrow> nat option" where
  "lower_bound_from ids rid first len =
     (if 0 < len then
        (let half = len div 2; middle = first + half in
         if length ids \<le> middle then None
         else if readNameID (ids ! middle) < rid
           then lower_bound_from ids rid (middle + 1) (len - half - 1)
         else lower_bound_from ids rid first half)
      else Some first)"
  by pat_completeness auto

termination
  by (relation "measure (\<lambda>(ids, rid, first, len). len)") auto

definition searchReadNameID_lb :: "uniqueID list \<Rightarrow> u64 \<Rightarrow> int option" where
  "searchReadNameID_lb ids rid = map_option int (lower_bound_from ids rid 0 (length ids))"

text \<open>The equations of the three searches are unfolded by hand in the proofs.\<close>

declare searchReadNameID.simps [simp del]

declare searchReadNameID_iter.simps [simp del]

declare lower_bound_from.simps [simp del]

section \<open>The accumulator of one position\<close>

text \<open>
  The retraction loops of \<open>appendReadNameID\<close> scan a quality string from the left and
  erase the first character equal to the one looked for; the string is unchanged when
  there is none.
\<close>

fun eraseFirst :: "char \<Rightarrow> string \<Rightarrow> string" where
  "eraseFirst q [] = []"
| "eraseFirst q (c # cs) = (if c = q then cs else c # eraseFirst q cs)"

text \<open>
  \<open>Position::appendReadNameID\<close> of \<open>position_3n_table_backup.h\<close>.  The result is the
  returned flag and the position afterwards.
\<close>

definition appendReadNameID :: "PosQuality \<Rightarrow> Alignment \<Rightarrow> Position \<Rightarrow> (bool \<times> Position) option" where
  "appendReadNameID InBase InAlignment p =
     (let ids = uniqueIDs p; idCount = int (length ids) in
      if idCount = 0 \<or> aln_readNameID InAlignment > readNameID (last ids) then
        Some (True, p\<lparr>uniqueIDs :=
          ids @ [new_uniqueID (aln_readNameID InAlignment) (converted InBase) (qual InBase)]\<rparr>)
      else
        (case searchReadNameID ids (aln_readNameID InAlignment) 0 idCount of
           None \<Rightarrow> None
         | Some index \<Rightarrow>
             if index < 0 \<or> idCount \<le> index then None
             else
               (let e = ids ! nat index in
                if readNameID e = aln_readNameID InAlignment then
                  (if removed e then Some (False, p)
                   else if isConverted e \<noteq> converted InBase then
                     (let p1 = p\<lparr>uniqueIDs := ids[nat index := e\<lparr>removed := True\<rparr>]\<rparr> in
                      if isConverted e then
                        Some (False, p1\<lparr>convertedQualities :=
                          eraseFirst (qual InBase) (convertedQualities p1)\<rparr>)
                      else
                        Some (False, p1\<lparr>unconvertedQualities :=
                          eraseFirst (qual InBase) (unconvertedQualities p1)\<rparr>))
                   else Some (False, p))
                else
                  Some (True, p\<lparr>uniqueIDs :=
                    take (nat index) ids
                    @ [new_uniqueID (aln_readNameID InAlignment) (converted InBase) (qual InBase)]
                    @ drop (nat index) ids\<rparr>))))"

text \<open>
  \<open>Position::appendReadNameID\<close> of \<open>position_3n_table_backup2.h\<close>: the text of the
  first variant, calling the iterative search.
\<close>

definition appendReadNameID_iter :: "PosQuality \<Rightarrow> Alignment \<Rightarrow> Position \<Rightarrow> (bool \<times> Position) option" where
  "appendReadNameID_iter InBase InAlignment p =
     (let ids = uniqueIDs p; idCount = int (length ids) in
      if idCount = 0 \<or> aln_readNameID InAlignment > readNameID (last ids) then
        Some (True, p\<lparr>uniqueIDs :=
          ids @ [new_uniqueID (aln_readNameID InAlignment) (converted InBase) (qual InBase)]\<rparr>)
      else
        (case searchReadNameID_iter ids (aln_readNameID InAlignment) 0 idCount of
           None \<Rightarrow> None
         | Some index \<Rightarrow>
             if index < 0 \<or> idCount \<le> index then None
             else
               (let e = ids ! nat index in
                if readNameID e = aln_readNameID InAlignment then
                  (if removed e then Some (False, p)
                   else if isConverted e \<noteq> converted InBase then
                     (let p1 = p\<lparr>uniqueIDs := ids[nat index := e\<lparr>removed := True\<rparr>]\<rparr> in
                      if isConverted e then
                        Some (False, p1\<lparr>convertedQualities :=
                          eraseFirst (qual InBase) (convertedQualities p1)\<rparr>)
                      else
                        Some (False, p1\<lparr>unconvertedQualities :=
                          eraseFirst (qual InBase) (unconvertedQualities p1)\<rparr>))
                   else Some (False, p))
                else
                  Some (True, p\<lparr>uniqueIDs :=
                    take (nat index) ids
                    @ [new_uniqueID (aln_readNameID InAlignment) (converted InBase) (qual InBase)]
                    @ drop (nat index) ids\<rparr>))))"

text \<open>
  \<open>Position::appendReadNameID\<close> of \<open>position_backup.h\<close>: the search is the
  \<open>lower_bound\<close> one, and the entry at \<open>index\<close> is read only when
  \<open>index < uniqueIDs.size()\<close>; otherwise the new entry is placed at \<open>index\<close>.
\<close>

definition appendReadNameID_lb :: "PosQuality \<Rightarrow> Alignment \<Rightarrow> Position \<Rightarrow> (bool \<times> Position) option" where
  "appendReadNameID_lb InBase InAlignment p =
     (let ids = uniqueIDs p; idCount = int (length ids) in
      if idCount = 0 \<or> aln_readNameID InAlignment > readNameID (last ids) then
        Some (True, p\<lparr>uniqueIDs :=
          ids @ [new_uniqueID (aln_readNameID InAlignment) (converted InBase) (qual InBase)]\<rparr>)
      else
        (case searchReadNameID_lb ids (aln_readNameID InAlignment) of
           None \<Rightarrow> None
         | Some index \<Rightarrow>
             if index < idCount \<and> readNameID (ids ! nat index) = aln_readNameID InAlignment then
               (let e = ids ! nat index in
                if removed e then Some (False, p)
                else if isConverted e \<noteq> converted InBase then
                  (let p1 = p\<lparr>uniqueIDs := ids[nat index := e\<lparr>removed := True\<rparr>]\<rparr> in
                   if isConverted e then
                     Some (False, p1\<lparr>convertedQualities :=
                       eraseFirst (qual InBase) (convertedQualities p1)\<rparr>)
                   else
                     Some (False, p1\<lparr>unconvertedQualities :=
                       eraseFirst (qual InBase) (unconvertedQualities p1)\<rparr>))
                else Some (False, p))
             else if idCount < index then None
             else
               Some (True, p\<lparr>uniqueIDs :=
                 take (nat index) ids
                 @ [new_uniqueID (aln_readNameID InAlignment) (converted InBase) (qual InBase)]
                 @ drop (nat index) ids\<rparr>)))"

text \<open>\<open>Position::appendBase\<close> (the lock is not modelled).\<close>

definition appendBase :: "PosQuality \<Rightarrow> Alignment \<Rightarrow> Position \<Rightarrow> Position option" where
  "appendBase input a p =
     (case appendReadNameID input a p of
        None \<Rightarrow> None
      | Some (added, p') \<Rightarrow>
          if added then
            (if converted input
             then Some (p'\<lparr>convertedQualities := convertedQualities p' @ [qual input]\<rparr>)
             else Some (p'\<lparr>unconvertedQualities := unconvertedQualities p' @ [qual input]\<rparr>))
          else Some p')"

text \<open>A sequence of \<open>appendBase\<close> calls, in list order.\<close>

fun appendBases :: "(PosQuality \<times> Alignment) list \<Rightarrow> Position \<Rightarrow> Position option" where
  "appendBases [] p = Some p"
| "appendBases ((b, a) # rest) p =
     (case appendBase b a p of None \<Rightarrow> None | Some p' \<Rightarrow> appendBases rest p')"

section \<open>Command line: \<open>hisat_3n_table_mod.cpp\<close>\<close>

text \<open>
  The C library's \<open>toupper\<close>, \<open>isspace\<close> and \<open>isdigit\<close> in the C locale, on the
  character codes.
\<close>

definition toupper :: "char \<Rightarrow> char" where
  "toupper c = (let n = (of_char c :: nat) in if 97 \<le> n \<and> n \<le> 122 then char_of (n - 32) else c)"

definition isspace :: "char \<Rightarrow> bool" where
  "isspace c \<longleftrightarrow> (let n = (of_char c :: nat) in n = 32 \<or> (9 \<le> n \<and> n \<le> 13))"

definition isdigit :: "char \<Rightarrow> bool" where
  "isdigit c \<longleftrightarrow> (let n = (of_char c :: nat) in 48 \<le> n \<and> n \<le> 57)"

text \<open>
  \<open>std::stoll\<close> and \<open>std::stoi\<close> in base 10, as the C++ library specifies them: leading
  white space is skipped, a sign may follow, then the longest run of digits is read; no
  digit is \<open>std::invalid_argument\<close>, a value outside the result type is
  \<open>std::out_of_range\<close>, and what follows the digits is ignored.
\<close>

datatype std_exception = invalid_argument | out_of_range

definition decimal :: "string \<Rightarrow> int" where
  "decimal ds = foldl (\<lambda>acc c. 10 * acc + (of_char c - 48)) 0 ds"

definition strtoll :: "nat \<Rightarrow> string \<Rightarrow> std_exception + int" where
  "strtoll bits s =
     (let t = dropWhile isspace s;
          neg = (t \<noteq> [] \<and> hd t = CHR ''-'');
          u = (if t \<noteq> [] \<and> (hd t = CHR ''-'' \<or> hd t = CHR ''+'') then tl t else t);
          ds = takeWhile isdigit u;
          v = (if neg then - decimal ds else decimal ds)
      in if ds = [] then Inl invalid_argument
         else if v < - (2 ^ (bits - 1)) \<or> 2 ^ (bits - 1) \<le> v then Inl out_of_range
         else Inr v)"

definition stoll :: "string \<Rightarrow> std_exception + int" where
  "stoll = strtoll 64"

definition stoi :: "string \<Rightarrow> std_exception + int" where
  "stoi = strtoll 32"

text \<open>
  The global variables of \<open>hisat_3n_table_mod.cpp\<close> that the options set, with their
  initial values (\<open>convertFromComplement\<close> and \<open>convertToComplement\<close> have no
  initializer: a global \<open>char\<close> starts as the null character).
\<close>

record globals =
  alignmentFileName :: string
  refFileName :: string
  outputFileName :: string
  standardInMode :: bool
  uniqueOnly :: bool
  multipleOnly :: bool
  CG_only :: bool
  nThreads :: int
  convertFrom :: char
  convertTo :: char
  convertFromComplement :: char
  convertToComplement :: char
  addedChrName :: bool
  removedChrName :: bool

definition globals0 :: globals where
  "globals0 =
     \<lparr>alignmentFileName = [], refFileName = [], outputFileName = [],
      standardInMode = False, uniqueOnly = False, multipleOnly = False, CG_only = False,
      nThreads = 1, convertFrom = CHR ''0'', convertTo = CHR ''0'',
      convertFromComplement = CHR 0x00, convertToComplement = CHR 0x00,
      addedChrName = False, removedChrName = False\<rparr>"

definition loadingBlockSize :: int where
  "loadingBlockSize = 1000000"

text \<open>
  How the program ends when an exception reaches \<open>main\<close>: \<open>throw n\<close> is the exit code
  \<open>n\<close>, a \<open>std::exception\<close> is reported and the exit code is 1.
\<close>

datatype failure = Thrown int | StdException std_exception

text \<open>
  \<open>parseOption\<close>.  \<open>fileExist\<close> is the test of the file system.  The option code is the
  character \<open>getopt_long\<close> returns, \<open>optarg\<close> its argument.
\<close>

definition parseOption :: "(string \<Rightarrow> bool) \<Rightarrow> char \<Rightarrow> string \<Rightarrow> globals \<Rightarrow> failure + globals" where
  "parseOption fileExist next_option optarg g =
     (if next_option = CHR ''a'' then
        (let g1 = g\<lparr>alignmentFileName := optarg\<rparr> in
         if optarg = ''-'' then Inr (g1\<lparr>standardInMode := True\<rparr>)
         else if \<not> fileExist optarg then Inl (Thrown 1)
         else Inr g1)
      else if next_option = CHR ''r'' then
        (let g1 = g\<lparr>refFileName := optarg\<rparr> in
         if \<not> fileExist optarg then Inl (Thrown 1) else Inr g1)
      else if next_option = CHR ''o'' then Inr (g\<lparr>outputFileName := optarg\<rparr>)
      else if next_option = CHR ''b'' then
        (if length optarg \<noteq> 3 \<or> optarg ! 1 \<noteq> CHR '','' then Inl (Thrown 1)
         else Inr (g\<lparr>convertFrom := toupper (hd optarg), convertTo := toupper (last optarg)\<rparr>))
      else if next_option = CHR ''u'' then Inr (g\<lparr>uniqueOnly := True\<rparr>)
      else if next_option = CHR ''m'' then Inr (g\<lparr>multipleOnly := True\<rparr>)
      else if next_option = CHR ''p'' then
        (case stoi optarg of
           Inl e \<Rightarrow> Inl (StdException e)
         | Inr n \<Rightarrow> Inr (g\<lparr>nThreads := (if n < 1 then 1 else n)\<rparr>))
      else if next_option = CHR ''h'' then Inl (Thrown 0)
      else Inl (Thrown 1))"

text \<open>
  \<open>parseOptions\<close>.  The loop takes the options in the order \<open>getopt_long\<close> yields them,
  given here as the list of (option code, argument) pairs; then come the checks and the
  two assignments of the complements.
\<close>

fun parseOptionLoop :: "(string \<Rightarrow> bool) \<Rightarrow> (char \<times> string) list \<Rightarrow> globals \<Rightarrow> failure + globals" where
  "parseOptionLoop fileExist [] g = Inr g"
| "parseOptionLoop fileExist ((next_option, optarg) # rest) g =
     (case parseOption fileExist next_option optarg g of
        Inl e \<Rightarrow> Inl e
      | Inr g' \<Rightarrow> parseOptionLoop fileExist rest g')"

definition parseOptions :: "(string \<Rightarrow> bool) \<Rightarrow> (char \<times> string) list \<Rightarrow> globals \<Rightarrow> failure + globals" where
  "parseOptions fileExist opts g =
     (case parseOptionLoop fileExist opts g of
        Inl e \<Rightarrow> Inl e
      | Inr g1 \<Rightarrow>
          if refFileName g1 = [] \<or> alignmentFileName g1 = [] then Inl (Thrown 1)
          else if convertFrom g1 = CHR ''0'' \<or> convertTo g1 = CHR ''0'' then Inl (Thrown 1)
          else Inr (g1\<lparr>convertFromComplement := CHR ''G'', convertToComplement := CHR ''A''\<rparr>))"

section \<open>The window of reference positions\<close>

text \<open>
  Conversion of an integer value to \<open>int\<close> or \<open>long long\<close>: the value modulo \<open>2 ^ 32\<close> or
  \<open>2 ^ 64\<close> in two's complement, which is what a narrowing conversion gives and how
  \<open>long long\<close> arithmetic wraps on the machine.
\<close>

definition to_int :: "int \<Rightarrow> int" where
  "to_int x = signed_take_bit 31 x"

definition to_long_long :: "int \<Rightarrow> int" where
  "to_long_long x = signed_take_bit 63 x"

text \<open>
  \<open>Positions::getIndex\<close> (the same text in the three headers): the location of the first
  position of the window is stored in \<open>int firstPos\<close>, the difference is computed in
  \<open>long long\<close> and returned as \<open>int\<close>.  Reading \<open>refPositions[0]\<close> of an empty window is
  \<open>None\<close>.
\<close>

definition getIndex :: "Position list \<Rightarrow> int \<Rightarrow> int option" where
  "getIndex refPositions targetPos =
     (if refPositions = [] then None
      else
        (let firstPos = to_int (location (refPositions ! 0))
         in Some (to_int (to_long_long (targetPos - firstPos)))))"

text \<open>
  The part of \<open>class Positions\<close> that \<open>appendRefPosition\<close> works on: the window (the
  positions the pointers of \<open>refPositions\<close> point to, in order), the chromosome, the
  number of bases read so far and the last base read.
\<close>

record window =
  refPositions :: "Position list"
  w_chromosome :: string
  w_location :: int
  lastBase :: char

text \<open>
  \<open>getFreePosition\<close> yields a position in the initialized state: one returned to the pool
  by \<open>returnPosition\<close>, which initializes it, or a new one, whose constructor does.
  \<open>Position::set(inputChr, inputLoc)\<close> stores the chromosome and \<open>inputLoc + 1\<close>;
  \<open>Position::set(inputStrand)\<close> stores the strand.
\<close>

definition set_chr_loc :: "string \<Rightarrow> int \<Rightarrow> Position \<Rightarrow> Position" where
  "set_chr_loc inputChr inputLoc p = p\<lparr>chromosome := inputChr, location := inputLoc + 1\<rparr>"

definition set_strand :: "char \<Rightarrow> Position \<Rightarrow> Position" where
  "set_strand inputStrand p = p\<lparr>strand := inputStrand\<rparr>"

text \<open>\<open>refPositions.back()->set(s)\<close> on a window that is not empty.\<close>

definition set_back :: "char \<Rightarrow> Position list \<Rightarrow> Position list" where
  "set_back s ps = butlast ps @ [set_strand s (last ps)]"

text \<open>
  The loop of \<open>Positions::appendRefPosition\<close>, at index \<open>i\<close> with the rest of the line
  still to read.  \<open>guard\<close> tells the variant: \<open>position_backup.h\<close> tests
  \<open>!refPositions.empty()\<close> before \<open>refPositions.back()\<close> (\<open>guard = True\<close>), the two
  \<open>position_3n_table_backup\<close> headers do not (\<open>guard = False\<close>), and \<open>back()\<close> of an empty
  vector is \<open>None\<close>.  The options \<open>CG_only\<close>, \<open>convertFrom\<close> and
  \<open>convertFromComplement\<close> are read from the globals.
\<close>

fun appendRefLoop :: "globals \<Rightarrow> bool \<Rightarrow> string \<Rightarrow> nat \<Rightarrow> window \<Rightarrow> window option" where
  "appendRefLoop g guard [] i w = Some w"
| "appendRefLoop g guard (b # rest) i w =
     (let newPos = set_chr_loc (w_chromosome w) (w_location w + int i) initialize in
      if CG_only g then
        (if lastBase w = CHR ''C'' \<and> b = CHR ''G'' then
           (if refPositions w = [] then
              (if guard then
                 appendRefLoop g guard rest (i + 1)
                   (w\<lparr>refPositions := refPositions w @ [set_strand CHR ''-'' newPos],
                      lastBase := b\<rparr>)
               else None)
            else
              appendRefLoop g guard rest (i + 1)
                (w\<lparr>refPositions :=
                     set_back CHR ''+'' (refPositions w) @ [set_strand CHR ''-'' newPos],
                   lastBase := b\<rparr>))
         else
           appendRefLoop g guard rest (i + 1)
             (w\<lparr>refPositions := refPositions w @ [newPos], lastBase := b\<rparr>))
      else
        (let newPos' =
           (if b = convertFrom g then set_strand CHR ''+'' newPos
            else if b = convertFromComplement g then set_strand CHR ''-'' newPos
            else newPos)
         in appendRefLoop g guard rest (i + 1)
              (w\<lparr>refPositions := refPositions w @ [newPos'], lastBase := b\<rparr>)))"

definition appendRefPosition :: "globals \<Rightarrow> bool \<Rightarrow> string \<Rightarrow> window \<Rightarrow> window option" where
  "appendRefPosition g guard line w =
     (case appendRefLoop g guard line 0 w of
        None \<Rightarrow> None
      | Some w' \<Rightarrow> Some (w'\<lparr>w_location := w_location w' + int (length line)\<rparr>))"

section \<open>The driver: \<open>hisat_3n_table\<close>\<close>

text \<open>The tab character.\<close>

definition tab :: char where
  "tab = CHR 0x09"

text \<open>
  \<open>getSAMChromosomePos\<close>.  \<open>getSAMFields field rest chr pos\<close> is the loop at the moment
  \<open>field\<close> has its value and \<open>rest\<close> is the line from \<open>start\<close> on; \<open>chr\<close> and \<open>pos\<close> are the
  two reference arguments, returned with the flag.  \<open>line->find\<close> returning \<open>npos\<close> is
  the absence of a tab in \<open>rest\<close>; an exception of \<open>stoll\<close> leaves the function.
\<close>

function getSAMFields :: "nat \<Rightarrow> string \<Rightarrow> string \<Rightarrow> int \<Rightarrow> std_exception + (bool \<times> string \<times> int)" where
  "getSAMFields field rest chr pos =
     (if field < 4 then
        (if tab \<notin> set rest then Inr (False, chr, pos)
         else
           (let tok = takeWhile (\<lambda>c. c \<noteq> tab) rest;
                rest' = tl (dropWhile (\<lambda>c. c \<noteq> tab) rest)
            in if field = 2 then getSAMFields (field + 1) rest' tok pos
               else if field = 3 then
                 (case stoll tok of
                    Inl e \<Rightarrow> Inl e
                  | Inr v \<Rightarrow> getSAMFields (field + 1) rest' chr v)
               else getSAMFields (field + 1) rest' chr pos))
      else Inr (chr \<noteq> ''*'', chr, pos))"
  by pat_completeness auto

termination
  by (relation "measure (\<lambda>(field, rest, chr, pos). 4 - field)") auto

definition getSAMChromosomePos :: "string \<Rightarrow> string \<Rightarrow> int \<Rightarrow> std_exception + (bool \<times> string \<times> int)" where
  "getSAMChromosomePos line chr pos = getSAMFields 0 line chr pos"

text \<open>
  The state the reading loop of \<open>hisat_3n_table\<close> works on: the chromosome of the window
  (\<open>positions->chromosome\<close>), the queue of lines handed to the workers, the number of
  buffers in the free pool, and the local variables.  Threads, waiting and the window's
  positions are not modelled: \<open>loadNewChromosome\<close> appears as the assignment of the
  chromosome, \<open>moveAllToOutput\<close>, \<open>moveBlockToOutput\<close> and \<open>loadMore\<close> do not touch this
  state.  \<open>samPos\<close> has no initializer and is written before it is read.
\<close>

record driver =
  d_chromosome :: string
  linePool :: "string list"
  freeLinePool :: nat
  samChromosome :: string
  samPos :: int
  reloadPos :: int
  lastPos :: int

definition driver0 :: driver where
  "driver0 =
     \<lparr>d_chromosome = [], linePool = [], freeLinePool = 0,
      samChromosome = [], samPos = 0, reloadPos = 0, lastPos = 0\<rparr>"

text \<open>
  How the loop can stop: \<open>throw 1\<close> after the message that the input is not sorted, the
  failure of \<open>loadNewChromosome\<close>, and a \<open>std::exception\<close> out of \<open>stoll\<close>.
\<close>

datatype driver_error = InputNotSorted | UnknownChromosome | ParseException std_exception

text \<open>\<open>getFreeStringPointer\<close> pops a buffer or allocates one; \<open>returnLine\<close> gives one back.\<close>

definition getFreeStringPointer :: "driver \<Rightarrow> driver" where
  "getFreeStringPointer s = s\<lparr>freeLinePool := freeLinePool s - 1\<rparr>"

definition returnLine :: "driver \<Rightarrow> driver" where
  "returnLine s = s\<lparr>freeLinePool := freeLinePool s + 1\<rparr>"

text \<open>The loop \<open>while (samPos > reloadPos)\<close>, which adds the block size each round.\<close>

function reloadLoop :: "int \<Rightarrow> int \<Rightarrow> int" where
  "reloadLoop sam reload =
     (if sam > reload then reloadLoop sam (reload + loadingBlockSize) else reload)"
  by pat_completeness auto

termination
  by (relation "measure (\<lambda>(sam, reload). nat (sam - reload))") (auto simp: loadingBlockSize_def)

text \<open>
  One round of the reading loop on the line \<open>lineStr\<close>.

  Modelled from the spec: \<open>loadNewChromosome\<close> looks the chromosome up with
  \<open>ChromosomeFilePositions::getChromosomePosInRefFile\<close>, which is not among the sources;
  the lookup fails with UnknownChromosome when the reference has no such name.  \<open>known\<close>
  tells which names the reference has.
\<close>

definition processLine :: "(string \<Rightarrow> bool) \<Rightarrow> string \<Rightarrow> driver \<Rightarrow> driver_error + driver" where
  "processLine known lineStr s =
     (if lineStr = [] \<or> hd lineStr = CHR ''@'' then Inr s
      else
        (let s1 = getFreeStringPointer s in
         case getSAMChromosomePos lineStr (samChromosome s1) (samPos s1) of
           Inl e \<Rightarrow> Inl (ParseException e)
         | Inr (ok, chr, pos) \<Rightarrow>
             (let s2 = s1\<lparr>samChromosome := chr, samPos := pos\<rparr> in
              if \<not> ok then Inr (returnLine s2)
              else if samChromosome s2 \<noteq> d_chromosome s2 \<and> \<not> known (samChromosome s2)
                then Inl UnknownChromosome
              else
                (let s3 = (if samChromosome s2 \<noteq> d_chromosome s2
                           then s2\<lparr>d_chromosome := samChromosome s2,
                                   reloadPos := loadingBlockSize, lastPos := 0\<rparr>
                           else s2);
                     s4 = s3\<lparr>reloadPos := reloadLoop (samPos s3) (reloadPos s3)\<rparr>
                 in if lastPos s4 > samPos s4 then Inl InputNotSorted
                    else Inr (s4\<lparr>linePool := linePool s4 @ [lineStr], lastPos := samPos s4\<rparr>)))))"

text \<open>The reading loop over the lines of the alignment file.\<close>

fun processLines :: "(string \<Rightarrow> bool) \<Rightarrow> string list \<Rightarrow> driver \<Rightarrow> driver_error + driver" where
  "processLines known [] s = Inr s"
| "processLines known (lineStr # rest) s =
     (case processLine known lineStr s of
        Inl e \<Rightarrow> Inl e
      | Inr s' \<Rightarrow> processLines known rest s')"

section \<open>Notions used in the statements\<close>

subsection \<open>Read ids and observations\<close>

text \<open>
  \<open>sortedIDs\<close> is the data model's invariant on \<open>uniqueIDs\<close>: strictly ascending read
  ids.  \<open>lowerBound\<close> is the number of leading entries whose id is below the target:
  the index of the entry with that id when there is one, the insertion point otherwise.
\<close>

definition sortedIDs :: "uniqueID list \<Rightarrow> bool" where
  "sortedIDs ids \<longleftrightarrow> sorted_wrt (<) (map readNameID ids)"

definition lowerBound :: "uniqueID list \<Rightarrow> u64 \<Rightarrow> nat" where
  "lowerBound ids rid = length (takeWhile (\<lambda>e. readNameID e < rid) ids)"

text \<open>
  What \<open>appendReadNameID\<close> does once the index is known to be the lower bound \<open>k\<close> of
  the read id: the entry at \<open>k\<close> is the read's own when it carries the id, and the new
  entry goes in at \<open>k\<close> otherwise.  The three variants are compared with it.
\<close>

definition appendAtLowerBound :: "PosQuality \<Rightarrow> Alignment \<Rightarrow> Position \<Rightarrow> bool \<times> Position" where
  "appendAtLowerBound InBase InAlignment p =
     (let ids = uniqueIDs p; k = lowerBound ids (aln_readNameID InAlignment) in
      if k < length ids \<and> readNameID (ids ! k) = aln_readNameID InAlignment then
        (let e = ids ! k in
         if removed e then (False, p)
         else if isConverted e \<noteq> converted InBase then
           (if isConverted e then
              (False, p\<lparr>convertedQualities := eraseFirst (qual InBase) (convertedQualities p),
                         uniqueIDs := ids[k := e\<lparr>removed := True\<rparr>]\<rparr>)
            else
              (False, p\<lparr>unconvertedQualities := eraseFirst (qual InBase) (unconvertedQualities p),
                         uniqueIDs := ids[k := e\<lparr>removed := True\<rparr>]\<rparr>))
         else (False, p))
      else
        (True, p\<lparr>uniqueIDs :=
           take k ids
           @ [new_uniqueID (aln_readNameID InAlignment) (converted InBase) (qual InBase)]
           @ drop k ids\<rparr>))"


text \<open>An observation (read id, converted, quality) as the two arguments of \<open>appendBase\<close>.\<close>

definition obs :: "u64 \<Rightarrow> bool \<Rightarrow> char \<Rightarrow> PosQuality \<times> Alignment" where
  "obs rid conv q =
     (\<lparr>refPos = 0, qual = q, converted = conv, remove = False\<rparr>,
      \<lparr>mapped = True, aln_location = 1, aln_readNameID = rid, bases = []\<rparr>)"






subsection \<open>Complements and strands\<close>

text \<open>
  The complement the specification means for \<open>--base-change\<close>: A with T, C with G.
\<close>

definition watsonCrick :: "char \<Rightarrow> char" where
  "watsonCrick c =
     (if c = CHR ''A'' then CHR ''T'' else if c = CHR ''T'' then CHR ''A''
      else if c = CHR ''C'' then CHR ''G'' else if c = CHR ''G'' then CHR ''C'' else c)"

text \<open>
  The strand of a fresh position as the claims describe it.  Outside CG-only mode it
  depends on the base alone.  In CG-only mode the base at index \<open>i\<close> of the line is
  \<open>+\<close> when it is a C and the next base of the line is a G, \<open>-\<close> when it is a G and
  the base before it (\<open>lb\<close>, the last base of the line before, at index 0) is a C.
\<close>

definition strandNonCG :: "globals \<Rightarrow> char \<Rightarrow> char" where
  "strandNonCG g b =
     (if b = convertFrom g then CHR ''+''
      else if b = convertFromComplement g then CHR ''-'' else CHR ''?'')"

definition strandCG :: "char \<Rightarrow> string \<Rightarrow> nat \<Rightarrow> char" where
  "strandCG lb line i =
     (if Suc i < length line \<and> line ! i = CHR ''C'' \<and> line ! Suc i = CHR ''G'' then CHR ''+''
      else if (if i = 0 then lb else line ! (i - 1)) = CHR ''C'' \<and> line ! i = CHR ''G''
        then CHR ''-''
      else CHR ''?'')"

text \<open>The fresh position number \<open>i\<close> of a line, with its strand.\<close>

definition freshPosition :: "window \<Rightarrow> nat \<Rightarrow> char \<Rightarrow> Position" where
  "freshPosition w i s =
     \<lparr>chromosome = w_chromosome w, location = w_location w + int i + 1, strand = s,
      convertedQualities = [], unconvertedQualities = [], uniqueIDs = []\<rparr>"

text \<open>
  What a call of \<open>appendRefPosition\<close> in CG-only mode does to the positions already in
  the window: the last one becomes \<open>+\<close> when the base before the line is a C and the line
  starts with a G.
\<close>

definition fixLast :: "char \<Rightarrow> string \<Rightarrow> Position list \<Rightarrow> Position list" where
  "fixLast lb rest ps =
     (if ps \<noteq> [] \<and> rest \<noteq> [] \<and> lb = CHR ''C'' \<and> hd rest = CHR ''G''
      then set_back CHR ''+'' ps else ps)"

subsection \<open>Lines of the alignment file\<close>

text \<open>
  The tab-separated fields of a line, as the specification counts them: a line with
  \<open>n\<close> tabs has \<open>n + 1\<close> fields.
\<close>

fun tabFields :: "string \<Rightarrow> string list" where
  "tabFields [] = [[]]"
| "tabFields (c # cs) = (if c = tab then [] # tabFields cs else (c # hd (tabFields cs)) # tl (tabFields cs))"

text \<open>
  The record (reference name, position) of a line that passes the driver's filters:
  not empty, not a header, at least four tabs, a fourth field that \<open>stoll\<close> reads, and a
  reference name other than \<open>*\<close>.
\<close>

definition accepted :: "string \<Rightarrow> (string \<times> int) option" where
  "accepted lineStr =
     (if lineStr = [] \<or> hd lineStr = CHR ''@'' \<or> length (tabFields lineStr) < 5 then None
      else
        (case stoll (tabFields lineStr ! 3) of
           Inl e \<Rightarrow> None
         | Inr v \<Rightarrow> if tabFields lineStr ! 2 = ''*'' then None else Some (tabFields lineStr ! 2, v)))"

text \<open>A line whose fourth field is there and cannot be read by \<open>stoll\<close>.\<close>

definition unreadable :: "string \<Rightarrow> bool" where
  "unreadable lineStr \<longleftrightarrow>
     lineStr \<noteq> [] \<and> hd lineStr \<noteq> CHR ''@'' \<and> 5 \<le> length (tabFields lineStr)
     \<and> (case stoll (tabFields lineStr ! 3) of Inl e \<Rightarrow> True | Inr v \<Rightarrow> False)"

text \<open>
  The order test on the accepted records, in words: some record has a smaller position
  than the record before it on the same chromosome, or a negative position while
  being the first record of its chromosome.  \<open>c\<close> and \<open>l\<close> are the chromosome and the
  position before the first record.
\<close>

definition outOfOrder :: "string \<Rightarrow> int \<Rightarrow> (string \<times> int) list \<Rightarrow> bool" where
  "outOfOrder c l rs \<longleftrightarrow>
     (\<exists>i<length rs.
        (let before = (if i = 0 then (c, l) else rs ! (i - 1)) in
         (fst before = fst (rs ! i) \<and> snd (rs ! i) < snd before)
         \<or> (fst before \<noteq> fst (rs ! i) \<and> snd (rs ! i) < 0)))"

text \<open>A line made of the given fields, joined by tabs.\<close>

fun joinTabs :: "string list \<Rightarrow> string" where
  "joinTabs [] = []"
| "joinTabs [f] = f"
| "joinTabs (f # g # fs) = f @ tab # joinTabs (g # fs)"

section \<open>Inputs of the examples\<close>

text \<open>A vector of three entries with the ids 3, 5 and 9.\<close>

definition ids359 :: "uniqueID list" where
  "ids359 = [new_uniqueID 3 True CHR ''I'', new_uniqueID 5 False CHR ''F'', new_uniqueID 9 True CHR ''J'']"

text \<open>The position after the converted observation \<open>I\<close> of read 7.\<close>

definition pos7I :: Position where
  "pos7I = initialize\<lparr>convertedQualities := ''I'', uniqueIDs := [new_uniqueID 7 True CHR ''I'']\<rparr>"


text \<open>The globals after \<open>--base-change C,T\<close>, and the window at the start of chromosome \<open>c1\<close>.\<close>

definition globalsCT :: globals where
  "globalsCT = globals0\<lparr>convertFrom := CHR ''C'', convertTo := CHR ''T'',
     convertFromComplement := CHR ''G'', convertToComplement := CHR ''A''\<rparr>"

definition window_c1 :: window where
  "window_c1 = \<lparr>refPositions = [], w_chromosome = ''c1'', w_location = 0, lastBase = CHR ''X''\<rparr>"

text \<open>Three alignment lines: positions 10 and 20 on \<open>c1\<close>, position 5 on \<open>c2\<close>.\<close>

definition sam_c1_10 :: string where
  "sam_c1_10 = joinTabs [''r1'', ''0'', ''c1'', ''10'', ''60'']"

definition sam_c1_20 :: string where
  "sam_c1_20 = joinTabs [''r2'', ''0'', ''c1'', ''20'', ''60'']"

definition sam_c2_5 :: string where
  "sam_c2_5 = joinTabs [''r3'', ''0'', ''c2'', ''5'', ''60'']"

section \<open>The searches compute the lower bound\<close>

lemma sdiv2_nonneg: "0 \<le> a \<Longrightarrow> a sdiv 2 = a div (2::int)"
  by (simp add: signed_divide_int_def sgn_if)

lemma sortedIDs_nth_mono:
  "sortedIDs ids \<Longrightarrow> i < j \<Longrightarrow> j < length ids \<Longrightarrow> readNameID (ids ! i) < readNameID (ids ! j)"
  by (auto simp: sortedIDs_def sorted_wrt_iff_nth_less)

lemma lowerBound_eqI:
  assumes "k \<le> length ids"
    and "\<And>i. i < k \<Longrightarrow> readNameID (ids ! i) < rid"
    and "k < length ids \<Longrightarrow> rid \<le> readNameID (ids ! k)"
  shows "lowerBound ids rid = k"
proof -
  have "takeWhile (\<lambda>e. readNameID e < rid) ids = take k ids"
    using assms by (intro takeWhile_eq_take_P_nth) auto
  then show ?thesis using assms(1) by (simp add: lowerBound_def)
qed

lemma below_last:
  assumes "ids \<noteq> []" "rid \<le> readNameID (last ids)"
    and "\<forall>i<length ids. int i < start \<longrightarrow> readNameID (ids ! i) < rid"
  shows "start < int (length ids)"
proof (rule ccontr)
  assume "\<not> start < int (length ids)"
  then have "int (length ids - 1) < start" using assms(1) by (cases ids) auto
  then have "readNameID (ids ! (length ids - 1)) < rid" using assms(1,3) by simp
  then show False using assms(1,2) by (simp add: last_conv_nth)
qed

lemma searchReadNameID_lowerBound:
  assumes "sortedIDs ids" "ids \<noteq> []" "rid \<le> readNameID (last ids)"
    and "0 \<le> start" "start \<le> end' + 1" "end' \<le> int (length ids)"
    and "\<forall>i<length ids. int i < start \<longrightarrow> readNameID (ids ! i) < rid"
    and "\<forall>i<length ids. end' < int i \<longrightarrow> rid < readNameID (ids ! i)"
  shows "searchReadNameID ids rid start end' = Some (int (lowerBound ids rid))"
  using assms
proof (induction ids rid start end' rule: searchReadNameID.induct)
  case (1 ids rid start end')
  have lt: "start < int (length ids)"
    using below_last [OF "1.prems"(2,3,7)] .
  show ?case
  proof (cases "start \<le> end'")
    case False
    then have e: "end' = start - 1" using "1.prems"(5) by simp
    have "lowerBound ids rid = nat start"
    proof (rule lowerBound_eqI)
      show "nat start \<le> length ids" using lt by simp
      show "readNameID (ids ! i) < rid" if "i < nat start" for i
        using that lt "1.prems"(7) by simp
      show "rid \<le> readNameID (ids ! nat start)"
        using "1.prems"(8) lt "1.prems"(4) e by (simp add: less_imp_le)
    qed
    then show ?thesis
      using False "1.prems"(2,4) by (subst searchReadNameID.simps) simp
  next
    case True
    define middle where "middle = (start + end') sdiv 2"
    have m: "middle = (start + end') div 2"
      using "1.prems"(4) True by (simp add: middle_def sdiv2_nonneg)
    have mb: "start \<le> middle" "middle \<le> end'" "0 \<le> middle" "middle < int (length ids)"
      using m True "1.prems"(4,6) lt by auto
    have unfold: "searchReadNameID ids rid start end' =
        (if readNameID (ids ! nat middle) = rid then Some middle
         else if readNameID (ids ! nat middle) > rid
           then searchReadNameID ids rid start (middle - 1)
         else searchReadNameID ids rid (middle + 1) end')"
      using True "1.prems"(2) mb
      by (subst searchReadNameID.simps) (simp add: middle_def [symmetric])
    consider (found) "readNameID (ids ! nat middle) = rid"
      | (left) "readNameID (ids ! nat middle) > rid"
      | (right) "readNameID (ids ! nat middle) < rid"
      by fastforce
    then show ?thesis
    proof cases
      case found
      have "lowerBound ids rid = nat middle"
      proof (rule lowerBound_eqI)
        show "nat middle \<le> length ids" using mb by simp
        show "readNameID (ids ! i) < rid" if "i < nat middle" for i
          using sortedIDs_nth_mono [OF "1.prems"(1) that] mb found by simp
        show "rid \<le> readNameID (ids ! nat middle)" using found by simp
      qed
      then show ?thesis
        using mb found unfold by simp
    next
      case left
      have "searchReadNameID ids rid start (middle - 1) = Some (int (lowerBound ids rid))"
      proof (rule "1.IH"(1) [OF "1.prems"(2) True middle_def])
        show "\<not> (middle < 0 \<or> int (length ids) \<le> middle)" using mb by simp
        show "readNameID (ids ! nat middle) \<noteq> rid" using left by simp
        show "rid < readNameID (ids ! nat middle)" by (rule left)
        show "sortedIDs ids" "ids \<noteq> []" "rid \<le> readNameID (last ids)" "0 \<le> start"
          using "1.prems" by simp_all
        show "start \<le> middle - 1 + 1" using mb by simp
        show "middle - 1 \<le> int (length ids)" using mb by simp
        show "\<forall>i<length ids. int i < start \<longrightarrow> readNameID (ids ! i) < rid"
          using "1.prems"(7) .
        show "\<forall>i<length ids. middle - 1 < int i \<longrightarrow> rid < readNameID (ids ! i)"
        proof (intro allI impI)
          fix i assume i: "i < length ids" "middle - 1 < int i"
          show "rid < readNameID (ids ! i)"
          proof (cases "i = nat middle")
            case True then show ?thesis using left by simp
          next
            case False
            then have "nat middle < i" using i mb by linarith
            from sortedIDs_nth_mono [OF "1.prems"(1) this i(1)] left show ?thesis by simp
          qed
        qed
      qed
      then show ?thesis
        using left unfold by auto
    next
      case right
      have "searchReadNameID ids rid (middle + 1) end' = Some (int (lowerBound ids rid))"
      proof (rule "1.IH"(2) [OF "1.prems"(2) True middle_def])
        show "\<not> (middle < 0 \<or> int (length ids) \<le> middle)" using mb by simp
        show "readNameID (ids ! nat middle) \<noteq> rid" using right by simp
        show "\<not> rid < readNameID (ids ! nat middle)" using right by simp
        show "sortedIDs ids" "ids \<noteq> []" "rid \<le> readNameID (last ids)" "0 \<le> middle + 1"
          using "1.prems" mb by simp_all
        show "middle + 1 \<le> end' + 1" using mb by simp
        show "end' \<le> int (length ids)" using "1.prems"(6) .
        show "\<forall>i<length ids. end' < int i \<longrightarrow> rid < readNameID (ids ! i)"
          using "1.prems"(8) .
        show "\<forall>i<length ids. int i < middle + 1 \<longrightarrow> readNameID (ids ! i) < rid"
        proof (intro allI impI)
          fix i assume i: "i < length ids" "int i < middle + 1"
          show "readNameID (ids ! i) < rid"
          proof (cases "i = nat middle")
            case True then show ?thesis using right by simp
          next
            case False
            then have lt': "i < nat middle" using i mb by linarith
            have "nat middle < length ids" using mb by simp
            from sortedIDs_nth_mono [OF "1.prems"(1) lt' this] right show ?thesis by simp
          qed
        qed
      qed
      then show ?thesis
        using right unfold by auto
    qed
  qed
qed

lemma midpoint_eq:
  "0 \<le> start \<Longrightarrow> start \<le> end' \<Longrightarrow> start + (end' - start) sdiv 2 = (start + end') sdiv (2::int)"
  by (simp add: sdiv2_nonneg)

lemma searchReadNameID_iter_eq:
  "ids \<noteq> [] \<Longrightarrow> 0 \<le> start \<Longrightarrow>
   searchReadNameID_iter ids rid start end' = searchReadNameID ids rid start end'"
proof (induction ids rid start end' rule: searchReadNameID.induct)
  case (1 ids rid start end')
  show ?case
  proof (cases "start \<le> end'")
    case False
    then show ?thesis
      using "1.prems"
      by (subst searchReadNameID_iter.simps, subst searchReadNameID.simps) simp
  next
    case True
    define middle where "middle = (start + end') sdiv 2"
    have m2: "start + (end' - start) sdiv 2 = middle"
      using "1.prems"(2) True by (simp add: middle_def midpoint_eq)
    have m0: "0 \<le> middle"
      using "1.prems"(2) True by (simp add: middle_def sdiv2_nonneg)
    have u1: "searchReadNameID ids rid start end' =
        (if middle < 0 \<or> int (length ids) \<le> middle then None
         else if readNameID (ids ! nat middle) = rid then Some middle
         else if readNameID (ids ! nat middle) > rid
           then searchReadNameID ids rid start (middle - 1)
         else searchReadNameID ids rid (middle + 1) end')"
      using True "1.prems"(1)
      by (subst searchReadNameID.simps) (simp add: middle_def [symmetric])
    have u2: "searchReadNameID_iter ids rid start end' =
        (if middle < 0 \<or> int (length ids) \<le> middle then None
         else if readNameID (ids ! nat middle) = rid then Some middle
         else if readNameID (ids ! nat middle) > rid
           then searchReadNameID_iter ids rid start (middle - 1)
         else searchReadNameID_iter ids rid (middle + 1) end')"
      using True
      by (subst searchReadNameID_iter.simps) (simp add: m2)
    show ?thesis
    proof (cases "middle < 0 \<or> int (length ids) \<le> middle")
      case True
      then show ?thesis using u1 u2 by simp
    next
      case inb: False
      show ?thesis
      proof (cases "readNameID (ids ! nat middle) = rid")
        case True
        then show ?thesis using u1 u2 inb by simp
      next
        case ne: False
        show ?thesis
        proof (cases "readNameID (ids ! nat middle) > rid")
          case gt: True
          have "searchReadNameID_iter ids rid start (middle - 1) = searchReadNameID ids rid start (middle - 1)"
            using "1.IH"(1) [OF "1.prems"(1) True middle_def inb ne gt "1.prems"(1,2)] .
          then show ?thesis using u1 u2 inb ne gt by simp
        next
          case ngt: False
          have "searchReadNameID_iter ids rid (middle + 1) end' = searchReadNameID ids rid (middle + 1) end'"
            using "1.IH"(2) [OF "1.prems"(1) True middle_def inb ne ngt "1.prems"(1)] m0 by simp
          then show ?thesis using u1 u2 inb ne ngt by simp
        qed
      qed
    qed
  qed
qed

lemma lower_bound_from_lowerBound:
  assumes "sortedIDs ids" "first + len \<le> length ids"
    and "\<forall>i<first. readNameID (ids ! i) < rid"
    and "\<forall>i<length ids. first + len \<le> i \<longrightarrow> rid \<le> readNameID (ids ! i)"
  shows "lower_bound_from ids rid first len = Some (lowerBound ids rid)"
  using assms
proof (induction ids rid first len rule: lower_bound_from.induct)
  case (1 ids rid first len)
  show ?case
  proof (cases "0 < len")
    case False
    have "lowerBound ids rid = first"
      using "1.prems" False by (intro lowerBound_eqI) auto
    then show ?thesis using False by (subst lower_bound_from.simps) simp
  next
    case True
    define half where "half = len div 2"
    define middle where "middle = first + half"
    have mb: "middle < length ids" "first \<le> middle" "half < len"
      using True "1.prems"(2) by (auto simp: middle_def half_def)
    have unfold: "lower_bound_from ids rid first len =
        (if readNameID (ids ! middle) < rid
           then lower_bound_from ids rid (middle + 1) (len - half - 1)
         else lower_bound_from ids rid first half)"
      using True mb
      by (subst lower_bound_from.simps) (simp add: half_def [symmetric] middle_def [symmetric])
    show ?thesis
    proof (cases "readNameID (ids ! middle) < rid")
      case lt: True
      have "lower_bound_from ids rid (middle + 1) (len - half - 1) = Some (lowerBound ids rid)"
      proof (rule "1.IH"(1) [OF True half_def middle_def _ lt "1.prems"(1)])
        show "\<not> length ids \<le> middle" using mb by simp
        show "middle + 1 + (len - half - 1) \<le> length ids"
          using mb "1.prems"(2) by (simp add: middle_def)
        show "\<forall>i<middle + 1. readNameID (ids ! i) < rid"
        proof (intro allI impI)
          fix i assume i: "i < middle + 1"
          show "readNameID (ids ! i) < rid"
          proof (cases "i = middle")
            case True then show ?thesis using lt by simp
          next
            case False
            then have "i < middle" using i by simp
            from sortedIDs_nth_mono [OF "1.prems"(1) this mb(1)] lt show ?thesis by simp
          qed
        qed
        show "\<forall>i<length ids. middle + 1 + (len - half - 1) \<le> i \<longrightarrow> rid \<le> readNameID (ids ! i)"
          using "1.prems"(4) mb by (simp add: middle_def)
      qed
      then show ?thesis using unfold lt by simp
    next
      case nlt: False
      have "lower_bound_from ids rid first half = Some (lowerBound ids rid)"
      proof (rule "1.IH"(2) [OF True half_def middle_def _ nlt "1.prems"(1)])
        show "\<not> length ids \<le> middle" using mb by simp
        show "first + half \<le> length ids" using mb by (simp add: middle_def)
        show "\<forall>i<first. readNameID (ids ! i) < rid" using "1.prems"(3) .
        show "\<forall>i<length ids. first + half \<le> i \<longrightarrow> rid \<le> readNameID (ids ! i)"
        proof (intro allI impI)
          fix i assume i: "i < length ids" "first + half \<le> i"
          show "rid \<le> readNameID (ids ! i)"
          proof (cases "i = middle")
            case True then show ?thesis using nlt by simp
          next
            case False
            then have "middle < i" using i by (simp add: middle_def)
            from sortedIDs_nth_mono [OF "1.prems"(1) this i(1)] nlt show ?thesis by simp
          qed
        qed
      qed
      then show ?thesis using unfold nlt by simp
    qed
  qed
qed

lemma searchReadNameID_lb_lowerBound:
  "sortedIDs ids \<Longrightarrow> searchReadNameID_lb ids rid = Some (int (lowerBound ids rid))"
  by (simp add: searchReadNameID_lb_def lower_bound_from_lowerBound)

lemma lowerBound_le: "lowerBound ids rid \<le> length ids"
  by (simp add: lowerBound_def length_takeWhile_le)

lemma lowerBound_before: "i < lowerBound ids rid \<Longrightarrow> readNameID (ids ! i) < rid"
  unfolding lowerBound_def using nth_length_takeWhile
  by (metis (mono_tags, lifting) nth_mem set_takeWhileD takeWhile_nth)

lemma lowerBound_at: "lowerBound ids rid < length ids \<Longrightarrow> rid \<le> readNameID (ids ! lowerBound ids rid)"
  unfolding lowerBound_def using nth_length_takeWhile [of "\<lambda>e. readNameID e < rid" ids]
  by simp

lemma lowerBound_after:
  "sortedIDs ids \<Longrightarrow> lowerBound ids rid < i \<Longrightarrow> i < length ids \<Longrightarrow> rid < readNameID (ids ! i)"
  using lowerBound_at [of ids rid] sortedIDs_nth_mono [of ids "lowerBound ids rid" i]
  by simp

lemma lowerBound_lt_last:
  assumes "ids \<noteq> []" "rid \<le> readNameID (last ids)"
  shows "lowerBound ids rid < length ids"
proof (rule ccontr)
  assume "\<not> lowerBound ids rid < length ids"
  then have "lowerBound ids rid = length ids" using lowerBound_le [of ids rid] by simp
  then have "readNameID (ids ! (length ids - 1)) < rid"
    using lowerBound_before [of "length ids - 1" ids rid] assms(1) by simp
  then show False using assms by (simp add: last_conv_nth)
qed

lemma searchReadNameID_whole:
  assumes "sortedIDs ids" "ids \<noteq> []" "rid \<le> readNameID (last ids)"
  shows "searchReadNameID ids rid 0 (int (length ids)) = Some (int (lowerBound ids rid))"
  using assms by (intro searchReadNameID_lowerBound) auto

lemma lowerBound_above_last:
  assumes "sortedIDs ids" "ids \<noteq> []" "readNameID (last ids) < rid"
  shows "lowerBound ids rid = length ids"
proof (rule lowerBound_eqI)
  show "length ids \<le> length ids" by simp
  show "readNameID (ids ! i) < rid" if "i < length ids" for i
  proof (cases "i = length ids - 1")
    case True
    then show ?thesis using assms(2,3) by (simp add: last_conv_nth)
  next
    case False
    then have "i < length ids - 1" using that by simp
    then have "readNameID (ids ! i) < readNameID (ids ! (length ids - 1))"
      using assms(1,2) by (intro sortedIDs_nth_mono) auto
    then show ?thesis using assms(2,3) by (simp add: last_conv_nth)
  qed
  show "rid \<le> readNameID (ids ! length ids)" if "length ids < length ids"
    using that by simp
qed

lemma appendReadNameID_sorted:
  assumes "sortedIDs (uniqueIDs p)"
  shows "appendReadNameID b a p = Some (appendAtLowerBound b a p)"
proof -
  define ids where "ids = uniqueIDs p"
  define rid where "rid = aln_readNameID a"
  consider (empty) "ids = []" | (above) "ids \<noteq> []" "readNameID (last ids) < rid"
    | (within) "ids \<noteq> []" "rid \<le> readNameID (last ids)"
    by fastforce
  then show ?thesis
  proof cases
    case empty
    then show ?thesis
      by (simp add: appendReadNameID_def appendAtLowerBound_def ids_def [symmetric] lowerBound_def)
  next
    case above
    have "lowerBound ids rid = length ids"
      using lowerBound_above_last [OF _ above] assms by (simp add: ids_def)
    then show ?thesis
      using above
      by (simp add: appendReadNameID_def appendAtLowerBound_def ids_def [symmetric]
          rid_def [symmetric])
  next
    case within
    have s: "searchReadNameID ids rid 0 (int (length ids)) = Some (int (lowerBound ids rid))"
      using searchReadNameID_whole [OF _ within] assms by (simp add: ids_def)
    have k: "lowerBound ids rid < length ids"
      using lowerBound_lt_last [OF within] .
    show ?thesis
      using within s k
      by (simp add: appendReadNameID_def appendAtLowerBound_def ids_def [symmetric]
          rid_def [symmetric] Let_def not_less [symmetric])
  qed
qed

lemma appendReadNameID_iter_sorted:
  assumes "sortedIDs (uniqueIDs p)"
  shows "appendReadNameID_iter b a p = Some (appendAtLowerBound b a p)"
proof -
  define ids where "ids = uniqueIDs p"
  define rid where "rid = aln_readNameID a"
  consider (empty) "ids = []" | (above) "ids \<noteq> []" "readNameID (last ids) < rid"
    | (within) "ids \<noteq> []" "rid \<le> readNameID (last ids)"
    by fastforce
  then show ?thesis
  proof cases
    case empty
    then show ?thesis
      by (simp add: appendReadNameID_iter_def appendAtLowerBound_def ids_def [symmetric] lowerBound_def)
  next
    case above
    have "lowerBound ids rid = length ids"
      using lowerBound_above_last [OF _ above] assms by (simp add: ids_def)
    then show ?thesis
      using above
      by (simp add: appendReadNameID_iter_def appendAtLowerBound_def ids_def [symmetric]
          rid_def [symmetric])
  next
    case within
    have s: "searchReadNameID_iter ids rid 0 (int (length ids)) = Some (int (lowerBound ids rid))"
      using searchReadNameID_whole [OF _ within] assms within(1)
      by (simp add: ids_def searchReadNameID_iter_eq)
    have k: "lowerBound ids rid < length ids"
      using lowerBound_lt_last [OF within] .
    show ?thesis
      using within s k
      by (simp add: appendReadNameID_iter_def appendAtLowerBound_def ids_def [symmetric]
          rid_def [symmetric] Let_def not_less [symmetric])
  qed
qed

lemma appendReadNameID_lb_sorted:
  assumes "sortedIDs (uniqueIDs p)"
  shows "appendReadNameID_lb b a p = Some (appendAtLowerBound b a p)"
proof -
  define ids where "ids = uniqueIDs p"
  define rid where "rid = aln_readNameID a"
  consider (empty) "ids = []" | (above) "ids \<noteq> []" "readNameID (last ids) < rid"
    | (within) "ids \<noteq> []" "rid \<le> readNameID (last ids)"
    by fastforce
  then show ?thesis
  proof cases
    case empty
    then show ?thesis
      by (simp add: appendReadNameID_lb_def appendAtLowerBound_def ids_def [symmetric] lowerBound_def)
  next
    case above
    have "lowerBound ids rid = length ids"
      using lowerBound_above_last [OF _ above] assms by (simp add: ids_def)
    then show ?thesis
      using above
      by (simp add: appendReadNameID_lb_def appendAtLowerBound_def ids_def [symmetric]
          rid_def [symmetric])
  next
    case within
    have s: "searchReadNameID_lb ids rid = Some (int (lowerBound ids rid))"
      using searchReadNameID_lb_lowerBound assms by (simp add: ids_def)
    have k: "lowerBound ids rid < length ids"
      using lowerBound_lt_last [OF within] .
    show ?thesis
      using within s k
      by (simp add: appendReadNameID_lb_def appendAtLowerBound_def ids_def [symmetric]
          rid_def [symmetric] Let_def not_less [symmetric])
  qed
qed

lemma lowerBound_found:
  assumes "sortedIDs ids" "j < length ids" "readNameID (ids ! j) = rid"
  shows "lowerBound ids rid = j"
proof (rule lowerBound_eqI)
  show "j \<le> length ids" using assms(2) by simp
  show "readNameID (ids ! i) < rid" if "i < j" for i
    using sortedIDs_nth_mono [OF assms(1) that assms(2)] assms(3) by simp
  show "rid \<le> readNameID (ids ! j)" using assms(3) by simp
qed

lemma lowerBound_insertion:
  assumes "sortedIDs ids" "rid \<notin> readNameID ` set ids" "i < length ids"
  shows "(i < lowerBound ids rid \<longrightarrow> readNameID (ids ! i) < rid)
       \<and> (lowerBound ids rid \<le> i \<longrightarrow> rid < readNameID (ids ! i))"
proof (intro conjI impI)
  show "readNameID (ids ! i) < rid" if "i < lowerBound ids rid"
    using that by (rule lowerBound_before)
  show "rid < readNameID (ids ! i)" if "lowerBound ids rid \<le> i"
  proof -
    have "rid \<noteq> readNameID (ids ! i)" using assms(2,3) by auto
    moreover have "rid \<le> readNameID (ids ! i)"
    proof (cases "lowerBound ids rid = i")
      case True then show ?thesis using lowerBound_at [of ids rid] assms(3) by simp
    next
      case False
      then have "lowerBound ids rid < i" using that by simp
      from lowerBound_after [OF assms(1) this assms(3)] show ?thesis by simp
    qed
    ultimately show ?thesis by simp
  qed
qed

section \<open>\<open>appendBase\<close> on a sorted id vector\<close>



lemma sortedIDs_entry_index:
  assumes "sortedIDs ids" "e \<in> set ids"
  shows "lowerBound ids (readNameID e) < length ids \<and> ids ! lowerBound ids (readNameID e) = e"
proof -
  obtain j where j: "j < length ids" "ids ! j = e"
    using assms(2) by (auto simp: in_set_conv_nth)
  then have "lowerBound ids (readNameID e) = j"
    using lowerBound_found [OF assms(1), of j "readNameID e"] by simp
  then show ?thesis using j by simp
qed

lemma lowerBound_absent:
  assumes "sortedIDs ids" "rid \<notin> readNameID ` set ids"
  shows "\<not> (lowerBound ids rid < length ids \<and> readNameID (ids ! lowerBound ids rid) = rid)"
  using assms(2) by (metis image_eqI nth_mem)

lemma sortedIDs_insert:
  assumes "sortedIDs ids" "rid \<notin> readNameID ` set ids" "readNameID e = rid"
  shows "sortedIDs (take (lowerBound ids rid) ids @ [e] @ drop (lowerBound ids rid) ids)"
proof -
  define k where "k = lowerBound ids rid"
  have lo: "readNameID x < rid" if "x \<in> set (take k ids)" for x
  proof -
    from that obtain i where "i < k" "i < length ids" "x = ids ! i"
      by (auto simp: in_set_conv_nth)
    then show ?thesis using lowerBound_before [of i ids rid] by (simp add: k_def)
  qed
  have hi: "rid < readNameID x" if "x \<in> set (drop k ids)" for x
  proof -
    from that obtain j where j: "j < length (drop k ids)" "x = drop k ids ! j"
      by (auto simp: in_set_conv_nth)
    define i where "i = k + j"
    have i: "k \<le> i" "i < length ids" "x = ids ! i"
      using j by (auto simp: i_def)
    then show ?thesis
      using lowerBound_insertion [OF assms(1,2), of i] by (simp add: k_def)
  qed
  have s1: "sorted_wrt (<) (map readNameID (take k ids))"
    and s2: "sorted_wrt (<) (map readNameID (drop k ids))"
    using assms(1) unfolding sortedIDs_def
    by (simp_all add: take_map [symmetric] drop_map [symmetric] sorted_wrt_take sorted_wrt_drop)
  show ?thesis
    unfolding sortedIDs_def k_def [symmetric]
    using s1 s2 lo hi assms(3)
    by (fastforce simp: sorted_wrt_append)
qed

lemma lowerBound_insert:
  assumes "readNameID e = rid"
  shows "lowerBound (take (lowerBound ids rid) ids @ [e] @ drop (lowerBound ids rid) ids) rid
         = lowerBound ids rid"
proof -
  define k where "k = lowerBound ids rid"
  have kl: "k \<le> length ids" by (simp add: k_def lowerBound_le)
  show ?thesis
    unfolding k_def [symmetric]
  proof (rule lowerBound_eqI)
    show "k \<le> length (take k ids @ [e] @ drop k ids)" using kl by simp
    show "readNameID ((take k ids @ [e] @ drop k ids) ! i) < rid" if "i < k" for i
      using that kl lowerBound_before [of i ids rid] by (simp add: nth_append k_def)
    show "rid \<le> readNameID ((take k ids @ [e] @ drop k ids) ! k)"
      using kl assms by (simp add: nth_append)
  qed
qed

lemma sortedIDs_update:
  "sortedIDs ids \<Longrightarrow> k < length ids \<Longrightarrow> readNameID e = readNameID (ids ! k) \<Longrightarrow>
   sortedIDs (ids[k := e])"
  by (simp add: sortedIDs_def map_update) (metis list_update_id map_update)

lemma lowerBound_update:
  assumes "k < length ids" "readNameID e = readNameID (ids ! k)"
  shows "lowerBound (ids[k := e]) rid = lowerBound ids rid"
proof -
  have "map readNameID (ids[k := e]) = map readNameID ids"
    using assms by (simp add: map_update) (metis list_update_id map_update)
  moreover have "lowerBound xs rid = length (takeWhile (\<lambda>x. x < rid) (map readNameID xs))" for xs
    by (simp add: lowerBound_def takeWhile_map comp_def)
  ultimately show ?thesis by simp
qed

lemma appendBase_sorted:
  "sortedIDs (uniqueIDs p) \<Longrightarrow>
   appendBase b a p =
     (case appendAtLowerBound b a p of
        (added, p') \<Rightarrow>
          if added then
            (if converted b
             then Some (p'\<lparr>convertedQualities := convertedQualities p' @ [qual b]\<rparr>)
             else Some (p'\<lparr>unconvertedQualities := unconvertedQualities p' @ [qual b]\<rparr>))
          else Some p')"
  by (simp add: appendBase_def appendReadNameID_sorted)

lemma appendBase_new:
  assumes "sortedIDs (uniqueIDs p)" "aln_readNameID a \<notin> readNameID ` set (uniqueIDs p)"
  shows "appendBase b a p =
     Some (p\<lparr>convertedQualities :=
                (if converted b then convertedQualities p @ [qual b] else convertedQualities p),
              unconvertedQualities :=
                (if converted b then unconvertedQualities p else unconvertedQualities p @ [qual b]),
              uniqueIDs :=
                take (lowerBound (uniqueIDs p) (aln_readNameID a)) (uniqueIDs p)
                @ [new_uniqueID (aln_readNameID a) (converted b) (qual b)]
                @ drop (lowerBound (uniqueIDs p) (aln_readNameID a)) (uniqueIDs p)\<rparr>)"
proof -
  have "\<not> (lowerBound (uniqueIDs p) (aln_readNameID a) < length (uniqueIDs p)
      \<and> readNameID (uniqueIDs p ! lowerBound (uniqueIDs p) (aln_readNameID a)) = aln_readNameID a)"
    using lowerBound_absent [OF assms] .
  then have "appendAtLowerBound b a p =
      (True, p\<lparr>uniqueIDs :=
                take (lowerBound (uniqueIDs p) (aln_readNameID a)) (uniqueIDs p)
                @ [new_uniqueID (aln_readNameID a) (converted b) (qual b)]
                @ drop (lowerBound (uniqueIDs p) (aln_readNameID a)) (uniqueIDs p)\<rparr>)"
    unfolding appendAtLowerBound_def Let_def by (simp only: if_False)
  then show ?thesis
    by (cases "converted b") (simp_all add: appendBase_sorted [OF assms(1)])
qed

lemma appendBase_same:
  assumes "sortedIDs (uniqueIDs p)" "e \<in> set (uniqueIDs p)" "readNameID e = aln_readNameID a"
    and "removed e \<or> isConverted e = converted b"
  shows "appendBase b a p = Some p"
  using sortedIDs_entry_index [OF assms(1,2)] assms(3,4)
  by (auto simp: appendBase_sorted [OF assms(1)] appendAtLowerBound_def Let_def)

lemma appendBase_conflict:
  assumes "sortedIDs (uniqueIDs p)" "e \<in> set (uniqueIDs p)" "readNameID e = aln_readNameID a"
    and "\<not> removed e" "isConverted e \<noteq> converted b"
  shows "appendBase b a p =
     Some (p\<lparr>convertedQualities :=
                (if isConverted e then eraseFirst (qual b) (convertedQualities p)
                 else convertedQualities p),
              unconvertedQualities :=
                (if isConverted e then unconvertedQualities p
                 else eraseFirst (qual b) (unconvertedQualities p)),
              uniqueIDs := (uniqueIDs p)[lowerBound (uniqueIDs p) (aln_readNameID a) := e\<lparr>removed := True\<rparr>]\<rparr>)"
  using sortedIDs_entry_index [OF assms(1,2)] assms(3,4,5)
  by (auto simp: appendBase_sorted [OF assms(1)] appendAtLowerBound_def Let_def)

lemma appendBase_total_sorted:
  assumes "sortedIDs (uniqueIDs p)"
  shows "\<exists>p'. appendBase b a p = Some p' \<and> sortedIDs (uniqueIDs p')"
proof (cases "aln_readNameID a \<in> readNameID ` set (uniqueIDs p)")
  case False
  then show ?thesis
    using appendBase_new [OF assms False, of b] sortedIDs_insert [OF assms False]
    by (simp add: new_uniqueID_def)
next
  case True
  then obtain e where e: "e \<in> set (uniqueIDs p)" "readNameID e = aln_readNameID a" by auto
  show ?thesis
  proof (cases "removed e \<or> isConverted e = converted b")
    case True
    then show ?thesis using appendBase_same [OF assms e] assms by simp
  next
    case False
    then have c: "\<not> removed e" "isConverted e \<noteq> converted b" by auto
    have "sortedIDs ((uniqueIDs p)[lowerBound (uniqueIDs p) (aln_readNameID a) := e\<lparr>removed := True\<rparr>])"
      using sortedIDs_entry_index [OF assms e(1)] e(2) assms
      by (intro sortedIDs_update) auto
    then show ?thesis using appendBase_conflict [OF assms e c] by simp
  qed
qed

section \<open>The searches agree; single calls of \<open>appendBase\<close>\<close>

text \<open>
  C10.  On a vector sorted strictly ascending by read id, and a target id not above the
  last entry's (the situation in which \<open>appendReadNameID\<close> searches), the recursive
  search of \<open>position_3n_table_backup.h\<close>, the iterative one of
  \<open>position_3n_table_backup2.h\<close> and the \<open>lower_bound\<close> one of \<open>position_backup.h\<close>
  return the same index, inside the vector: the index of the entry carrying the id when
  there is one, and otherwise the insertion point (entries before it have smaller ids,
  entries from it on larger ones).  Hence the three \<open>appendReadNameID\<close> return the same
  flag and leave the same position.
\<close>

theorem search_variants_agree:
  assumes "sortedIDs ids" and "ids \<noteq> []" and "rid \<le> readNameID (last ids)"
  shows "searchReadNameID ids rid 0 (int (length ids)) = Some (int (lowerBound ids rid))
       \<and> searchReadNameID_iter ids rid 0 (int (length ids)) = Some (int (lowerBound ids rid))
       \<and> searchReadNameID_lb ids rid = Some (int (lowerBound ids rid))
       \<and> lowerBound ids rid < length ids
       \<and> (\<forall>j<length ids. readNameID (ids ! j) = rid \<longrightarrow> lowerBound ids rid = j)
       \<and> (rid \<notin> readNameID ` set ids \<longrightarrow>
            (\<forall>i<length ids. (i < lowerBound ids rid \<longrightarrow> readNameID (ids ! i) < rid)
                          \<and> (lowerBound ids rid \<le> i \<longrightarrow> rid < readNameID (ids ! i))))
       \<and> (uniqueIDs p = ids \<longrightarrow>
            appendReadNameID_iter b a p = appendReadNameID b a p
          \<and> appendReadNameID_lb b a p = appendReadNameID b a p
          \<and> appendReadNameID b a p \<noteq> None)"
proof (intro conjI)
  show "searchReadNameID ids rid 0 (int (length ids)) = Some (int (lowerBound ids rid))"
    using assms by (rule searchReadNameID_whole)
  then show "searchReadNameID_iter ids rid 0 (int (length ids)) = Some (int (lowerBound ids rid))"
    using assms(2) by (simp add: searchReadNameID_iter_eq)
  show "searchReadNameID_lb ids rid = Some (int (lowerBound ids rid))"
    using assms(1) by (rule searchReadNameID_lb_lowerBound)
  show "lowerBound ids rid < length ids"
    using assms(2,3) by (rule lowerBound_lt_last)
  show "\<forall>j<length ids. readNameID (ids ! j) = rid \<longrightarrow> lowerBound ids rid = j"
    using lowerBound_found [OF assms(1)] by blast
  show "rid \<notin> readNameID ` set ids \<longrightarrow>
            (\<forall>i<length ids. (i < lowerBound ids rid \<longrightarrow> readNameID (ids ! i) < rid)
                          \<and> (lowerBound ids rid \<le> i \<longrightarrow> rid < readNameID (ids ! i)))"
    using lowerBound_insertion [OF assms(1)] by blast
  show "uniqueIDs p = ids \<longrightarrow>
            appendReadNameID_iter b a p = appendReadNameID b a p
          \<and> appendReadNameID_lb b a p = appendReadNameID b a p
          \<and> appendReadNameID b a p \<noteq> None"
    using assms(1)
    by (simp add: appendReadNameID_sorted appendReadNameID_iter_sorted appendReadNameID_lb_sorted)
qed

theorem search_variants_agree_witness:
  "sortedIDs ids359 \<and> ids359 \<noteq> [] \<and> (5 :: u64) \<le> readNameID (last ids359)
   \<and> searchReadNameID ids359 5 0 3 = Some 1
   \<and> searchReadNameID_iter ids359 5 0 3 = Some 1
   \<and> searchReadNameID_lb ids359 5 = Some 1
   \<and> searchReadNameID ids359 4 0 3 = Some 1
   \<and> searchReadNameID_iter ids359 4 0 3 = Some 1
   \<and> searchReadNameID_lb ids359 4 = Some 1"
proof -
  have h: "sortedIDs ids359" "ids359 \<noteq> []"
    by (simp_all add: ids359_def sortedIDs_def new_uniqueID_def)
  have l5: "(5 :: u64) \<le> readNameID (last ids359)" and l4: "(4 :: u64) \<le> readNameID (last ids359)"
    by (simp_all add: ids359_def new_uniqueID_def)
  have lb: "lowerBound ids359 5 = 1" "lowerBound ids359 4 = 1" "length ids359 = 3"
    by (simp_all add: ids359_def lowerBound_def new_uniqueID_def)
  show ?thesis
    using h l5 search_variants_agree [OF h l5] search_variants_agree [OF h l4] lb
    by simp
qed

text \<open>
  C1.  The claim: when the read already has a live entry with the opposite flag, the
  entry is marked removed and the first occurrence of the quality stored in the entry
  leaves its quality string, so that converted \<open>I\<close> followed by unconverted \<open>F\<close> from
  read 7 leaves both strings empty.  The code scans for the quality of the new
  observation (\<open>InBase.qual\<close>) instead: the entry is marked removed and \<open>I\<close> stays.
\<close>

theorem retraction_scans_for_new_quality:
  "appendBases [obs 7 True CHR ''I'', obs 7 False CHR ''F''] initialize =
     Some (initialize\<lparr>convertedQualities := ''I'',
       uniqueIDs := [\<lparr>readNameID = 7, isConverted = True, quality = CHR ''I'', removed = True\<rparr>]\<rparr>)"
  by code_simp

text \<open>
  C4.  The claim: after any sequence of \<open>appendBase\<close> calls from the initialized state
  the two quality strings together are as long as the number of entries not marked
  removed.  After the two calls above one quality character is left and no live entry.
\<close>

theorem accounting_broken_after_retraction:
  "\<exists>p. appendBases [obs 7 True CHR ''I'', obs 7 False CHR ''F''] initialize = Some p
     \<and> length (convertedQualities p) + length (unconvertedQualities p) = 1
     \<and> length (filter (\<lambda>e. \<not> removed e) (uniqueIDs p)) = 0"
proof -
  have "appendBases [obs 7 True CHR ''I'', obs 7 False CHR ''F''] initialize =
     Some (initialize\<lparr>convertedQualities := ''I'',
       uniqueIDs := [\<lparr>readNameID = 7, isConverted = True, quality = CHR ''I'', removed = True\<rparr>]\<rparr>)"
    by code_simp
  then show ?thesis by (simp add: initialize_def)
qed

lemma appendBase_leaves_entry:
  assumes "sortedIDs (uniqueIDs p)"
  shows "\<exists>p'. appendBase b a p = Some p' \<and> sortedIDs (uniqueIDs p')
           \<and> (\<exists>e\<in>set (uniqueIDs p'). readNameID e = aln_readNameID a
                 \<and> (removed e \<or> isConverted e = converted b))"
proof (cases "aln_readNameID a \<in> readNameID ` set (uniqueIDs p)")
  case False
  define ne where "ne = new_uniqueID (aln_readNameID a) (converted b) (qual b)"
  define ids' where "ids' = take (lowerBound (uniqueIDs p) (aln_readNameID a)) (uniqueIDs p)
                @ [ne] @ drop (lowerBound (uniqueIDs p) (aln_readNameID a)) (uniqueIDs p)"
  have ne: "readNameID ne = aln_readNameID a" "isConverted ne = converted b"
    by (simp_all add: ne_def new_uniqueID_def)
  have m: "ne \<in> set ids'" by (simp add: ids'_def)
  have s: "sortedIDs ids'"
    unfolding ids'_def using sortedIDs_insert [OF assms False ne(1)] .
  obtain p' where p': "appendBase b a p = Some p'" "uniqueIDs p' = ids'"
    using appendBase_new [OF assms False, of b] by (simp add: ids'_def ne_def)
  show ?thesis
    using p' s m ne by auto
next
  case True
  then obtain e where e: "e \<in> set (uniqueIDs p)" "readNameID e = aln_readNameID a" by auto
  show ?thesis
  proof (cases "removed e \<or> isConverted e = converted b")
    case True
    then show ?thesis using appendBase_same [OF assms e] assms e by auto
  next
    case False
    then have c: "\<not> removed e" "isConverted e \<noteq> converted b" by auto
    define k where "k = lowerBound (uniqueIDs p) (aln_readNameID a)"
    have k: "k < length (uniqueIDs p)" "uniqueIDs p ! k = e"
      using sortedIDs_entry_index [OF assms e(1)] e(2) by (simp_all add: k_def)
    have s: "sortedIDs ((uniqueIDs p)[k := e\<lparr>removed := True\<rparr>])"
      using k assms by (intro sortedIDs_update) auto
    have m: "e\<lparr>removed := True\<rparr> \<in> set ((uniqueIDs p)[k := e\<lparr>removed := True\<rparr>])"
      using k(1) by (rule set_update_memI)
    obtain p' where p': "appendBase b a p = Some p'"
      "uniqueIDs p' = (uniqueIDs p)[k := e\<lparr>removed := True\<rparr>]"
      using appendBase_conflict [OF assms e c] by (simp add: k_def)
    define e' where "e' = e\<lparr>removed := True\<rparr>"
    have "readNameID e' = aln_readNameID a" "removed e'"
      using e(2) by (simp_all add: e'_def)
    then show ?thesis
      using p' s m unfolding e'_def [symmetric] by auto
  qed
qed

lemma live_entry_wins:
  assumes "sortedIDs (uniqueIDs p)"
  shows "(e \<in> set (uniqueIDs p) \<and> readNameID e = aln_readNameID a \<and> \<not> removed e
            \<and> isConverted e = converted b \<longrightarrow> appendBase b a p = Some p)
       \<and> (\<exists>p'. appendBase b a p = Some p' \<and> appendBase b a p' = Some p'
            \<and> (\<forall>b'. converted b' = converted b \<longrightarrow> appendBase b' a p' = Some p'))"
proof (intro conjI impI)
  assume "e \<in> set (uniqueIDs p) \<and> readNameID e = aln_readNameID a \<and> \<not> removed e
            \<and> isConverted e = converted b"
  then show "appendBase b a p = Some p"
    using appendBase_same [OF assms, of e a b] by simp
next
  obtain p' e' where p': "appendBase b a p = Some p'" "sortedIDs (uniqueIDs p')"
    "e' \<in> set (uniqueIDs p')" "readNameID e' = aln_readNameID a"
    "removed e' \<or> isConverted e' = converted b"
    using appendBase_leaves_entry [OF assms, of b a] by blast
  have "appendBase b' a p' = Some p'" if "converted b' = converted b" for b'
    using appendBase_same [OF p'(2,3,4), of b'] p'(5) that by simp
  then show "\<exists>p'. appendBase b a p = Some p' \<and> appendBase b a p' = Some p'
            \<and> (\<forall>b'. converted b' = converted b \<longrightarrow> appendBase b' a p' = Some p')"
    using p'(1) by auto
qed

lemma appendBases_sorted:
  "sortedIDs (uniqueIDs p) \<Longrightarrow> appendBases os p = Some p' \<Longrightarrow> sortedIDs (uniqueIDs p')"
proof (induction os arbitrary: p)
  case Nil
  then show ?case by simp
next
  case (Cons x os)
  obtain b a where x: "x = (b, a)" by (cases x)
  obtain p1 where p1: "appendBase b a p = Some p1" "sortedIDs (uniqueIDs p1)"
    using appendBase_total_sorted [OF Cons.prems(1), of b a] by blast
  then have "appendBases os p1 = Some p'" using Cons.prems(2) x by simp
  from Cons.IH [OF p1(2) this] show ?case .
qed

text \<open>
  C5.  After any sequence of \<open>appendBase\<close> calls on a position that started with an empty
  id vector: when the read has an entry that is not removed and carries the same
  converted flag, \<open>appendBase\<close> with any quality leaves the position as it is, the
  quality strings and the id vector included; and after one \<open>appendBase\<close> of an
  observation, the same observation again, or any observation of that read with the
  same flag, changes nothing.
\<close>

theorem first_observation_wins:
  assumes "uniqueIDs p0 = []" and "appendBases os p0 = Some p"
  shows "(e \<in> set (uniqueIDs p) \<and> readNameID e = aln_readNameID a \<and> \<not> removed e
            \<and> isConverted e = converted b \<longrightarrow> appendBase b a p = Some p)
       \<and> (\<exists>p'. appendBase b a p = Some p' \<and> appendBase b a p' = Some p'
            \<and> (\<forall>b'. converted b' = converted b \<longrightarrow> appendBase b' a p' = Some p'))"
proof -
  have "sortedIDs (uniqueIDs p0)" using assms(1) by (simp add: sortedIDs_def)
  then have "sortedIDs (uniqueIDs p)" using assms(2) by (rule appendBases_sorted)
  then show ?thesis by (rule live_entry_wins)
qed

theorem first_observation_wins_witness:
  "uniqueIDs initialize = []
   \<and> appendBases [obs 7 True CHR ''I''] initialize = Some pos7I
   \<and> new_uniqueID 7 True CHR ''I'' \<in> set (uniqueIDs pos7I)
   \<and> appendBase (fst (obs 7 True CHR ''J'')) (snd (obs 7 True CHR ''J'')) pos7I = Some pos7I
   \<and> appendBases [obs 7 True CHR ''I'', obs 7 True CHR ''I''] initialize = Some pos7I"
proof -
  have i: "uniqueIDs initialize = []" by (simp add: initialize_def)
  have r: "appendBases [obs 7 True CHR ''I''] initialize = Some pos7I"
    "appendBases [obs 7 True CHR ''I'', obs 7 True CHR ''I''] initialize = Some pos7I"
    by (simp_all add: pos7I_def obs_def initialize_def appendBase_def appendReadNameID_def
        new_uniqueID_def searchReadNameID.simps sdiv2_nonneg)
  have "appendBase (fst (obs 7 True CHR ''J'')) (snd (obs 7 True CHR ''J'')) pos7I = Some pos7I"
    using first_observation_wins [OF i r(1), of "new_uniqueID 7 True CHR ''I''"
        "snd (obs 7 True CHR ''J'')" "fst (obs 7 True CHR ''J'')"]
    by (simp add: pos7I_def obs_def new_uniqueID_def)
  then show ?thesis using r i by (simp add: pos7I_def)
qed

section \<open>Sequences of observations\<close>

















section \<open>The complements set by \<open>parseOptions\<close>\<close>

lemma parseOptions_complements:
  "parseOptions fileExist opts g = Inr g' \<Longrightarrow>
   convertFromComplement g' = CHR ''G'' \<and> convertToComplement g' = CHR ''A''"
  by (auto simp: parseOptions_def split: sum.splits if_splits)

text \<open>
  C2.  The claim: after \<open>parseOptions\<close> succeeds with \<open>--base-change FROM,TO\<close>,
  \<open>convertFromComplement\<close> and \<open>convertToComplement\<close> are the complements of FROM and
  TO.  \<open>parseOptions\<close> assigns the constants \<open>G\<close> and \<open>A\<close> whatever FROM and TO are:
  with \<open>--base-change A,G\<close> the complements come out as \<open>G\<close> and \<open>A\<close>, not \<open>T\<close> and \<open>C\<close>.
\<close>

theorem base_change_complements_fixed:
  "\<exists>g. parseOptions (\<lambda>f. True)
          [(CHR ''a'', ''reads.sam''), (CHR ''r'', ''ref.fa''), (CHR ''b'', ''A,G'')] globals0 = Inr g
       \<and> convertFrom g = CHR ''A'' \<and> convertTo g = CHR ''G''
       \<and> convertFromComplement g = CHR ''G'' \<and> watsonCrick (convertFrom g) = CHR ''T''
       \<and> convertToComplement g = CHR ''A'' \<and> watsonCrick (convertTo g) = CHR ''C''"
proof -
  have "parseOptions (\<lambda>f. True)
          [(CHR ''a'', ''reads.sam''), (CHR ''r'', ''ref.fa''), (CHR ''b'', ''A,G'')] globals0
     = Inr (globals0\<lparr>alignmentFileName := ''reads.sam'', refFileName := ''ref.fa'',
              convertFrom := CHR ''A'', convertTo := CHR ''G'',
              convertFromComplement := CHR ''G'', convertToComplement := CHR ''A''\<rparr>)"
    by code_simp
  then show ?thesis by (simp add: watsonCrick_def)
qed

section \<open>The index into the window\<close>

lemma to_int_fits: "- (2 ^ 31) \<le> x \<Longrightarrow> x < 2 ^ 31 \<Longrightarrow> to_int x = x"
  by (simp add: to_int_def signed_take_bit_int_eq_self)

lemma to_int_range: "- (2 ^ 31) \<le> to_int x \<and> to_int x < 2 ^ 31"
  using signed_take_bit_int_greater_eq_minus_exp [of 31 x] signed_take_bit_int_less_exp [of 31 x]
  by (simp add: to_int_def)

lemma to_int_to_long_long: "to_int (to_long_long x) = to_int x"
  by (simp add: to_int_def to_long_long_def signed_take_bit_signed_take_bit)

lemma to_int_diff: "to_int (x - to_int y) = to_int (x - y)"
  unfolding to_int_def
  by (metis signed_take_bit_diff signed_take_bit_signed_take_bit min.idem)

lemma getIndex_wraps:
  "ps \<noteq> [] \<Longrightarrow> getIndex ps targetPos = Some (to_int (targetPos - location (ps ! 0)))"
  by (simp add: getIndex_def to_int_to_long_long to_int_diff)

text \<open>
  C9.  The claim: on a non-empty window \<open>getIndex\<close> returns the mathematical difference
  \<open>targetPos - refPositions[0]->location\<close>, also when the location or the difference lies
  outside the signed 32-bit range.  The function returns \<open>int\<close>: the result is the
  difference reduced to 32 bits, and it is the mathematical difference exactly when
  that difference fits in a signed 32-bit integer (the location itself need not).
\<close>

theorem getIndex_difference:
  assumes "ps \<noteq> []"
  shows "getIndex ps targetPos = Some (to_int (targetPos - location (ps ! 0)))
       \<and> (- (2 ^ 31) \<le> targetPos - location (ps ! 0)
            \<and> targetPos - location (ps ! 0) < 2 ^ 31
          \<longrightarrow> getIndex ps targetPos = Some (targetPos - location (ps ! 0)))
       \<and> (getIndex ps targetPos = Some (targetPos - location (ps ! 0))
          \<longrightarrow> - (2 ^ 31) \<le> targetPos - location (ps ! 0)
            \<and> targetPos - location (ps ! 0) < 2 ^ 31)"
proof (intro conjI impI)
  show w: "getIndex ps targetPos = Some (to_int (targetPos - location (ps ! 0)))"
    using assms by (rule getIndex_wraps)
  show "getIndex ps targetPos = Some (targetPos - location (ps ! 0))"
    if "- (2 ^ 31) \<le> targetPos - location (ps ! 0)
            \<and> targetPos - location (ps ! 0) < 2 ^ 31"
    using that w by (simp add: to_int_fits)
  assume "getIndex ps targetPos = Some (targetPos - location (ps ! 0))"
  then have e: "to_int (targetPos - location (ps ! 0)) = targetPos - location (ps ! 0)"
    using w by simp
  show "- (2 ^ 31) \<le> targetPos - location (ps ! 0)"
    using to_int_range [of "targetPos - location (ps ! 0)"] e by simp
  show "targetPos - location (ps ! 0) < 2 ^ 31"
    using to_int_range [of "targetPos - location (ps ! 0)"] e by simp
qed

theorem getIndex_difference_witness:
  "[initialize\<lparr>location := 5000000001\<rparr>, initialize\<lparr>location := 5000000002\<rparr>] \<noteq> []
   \<and> getIndex [initialize\<lparr>location := 5000000001\<rparr>, initialize\<lparr>location := 5000000002\<rparr>] 5000000124
       = Some 123"
  using getIndex_difference [of "[initialize\<lparr>location := 5000000001\<rparr>, initialize\<lparr>location := 5000000002\<rparr>]" 5000000124]
  by (simp add: to_int_def)

theorem getIndex_difference_counterexample:
  "[initialize\<lparr>location := 1\<rparr>] \<noteq> []
   \<and> getIndex [initialize\<lparr>location := 1\<rparr>] 2147483649 = Some (- 2147483648)
   \<and> getIndex [initialize\<lparr>location := 1\<rparr>] 2147483649
       \<noteq> Some (2147483649 - location ([initialize\<lparr>location := 1\<rparr>] ! 0))"
  by (simp add: getIndex_def to_int_def to_long_long_def)

section \<open>The filter and the order check of the driver\<close>

declare getSAMFields.simps [simp del]

declare reloadLoop.simps [simp del]

lemma fields_nonempty: "tabFields s \<noteq> []"
  by (induction s) auto

lemma fields_no_tab: "tab \<notin> set s \<Longrightarrow> tabFields s = [s]"
  by (induction s) auto

lemma fields_tab:
  "tab \<in> set s \<Longrightarrow>
   tabFields s = takeWhile (\<lambda>c. c \<noteq> tab) s # tabFields (tl (dropWhile (\<lambda>c. c \<noteq> tab) s))"
proof (induction s)
  case Nil
  then show ?case by simp
next
  case (Cons c cs)
  show ?case
  proof (cases "c = tab")
    case True
    then show ?thesis by simp
  next
    case False
    then have "tab \<in> set cs" using Cons.prems by auto
    from Cons.IH [OF this] False show ?thesis by simp
  qed
qed

lemma getSAMFields_stop:
  "field < 4 \<Longrightarrow> tab \<notin> set rest \<Longrightarrow> getSAMFields field rest chr pos = Inr (False, chr, pos)"
  by (subst getSAMFields.simps) simp

lemma getSAMFields_0:
  "tab \<in> set rest \<Longrightarrow>
   getSAMFields 0 rest chr pos = getSAMFields 1 (tl (dropWhile (\<lambda>c. c \<noteq> tab) rest)) chr pos"
  by (subst getSAMFields.simps) simp

lemma getSAMFields_1:
  "tab \<in> set rest \<Longrightarrow>
   getSAMFields 1 rest chr pos = getSAMFields 2 (tl (dropWhile (\<lambda>c. c \<noteq> tab) rest)) chr pos"
  by (subst getSAMFields.simps) (simp add: numeral_2_eq_2)

lemma getSAMFields_2:
  "tab \<in> set rest \<Longrightarrow>
   getSAMFields 2 rest chr pos
   = getSAMFields 3 (tl (dropWhile (\<lambda>c. c \<noteq> tab) rest)) (takeWhile (\<lambda>c. c \<noteq> tab) rest) pos"
  by (subst getSAMFields.simps) simp

lemma getSAMFields_3:
  "tab \<in> set rest \<Longrightarrow>
   getSAMFields 3 rest chr pos
   = (case stoll (takeWhile (\<lambda>c. c \<noteq> tab) rest) of
        Inl e \<Rightarrow> Inl e
      | Inr v \<Rightarrow> getSAMFields 4 (tl (dropWhile (\<lambda>c. c \<noteq> tab) rest)) chr v)"
  by (subst getSAMFields.simps) (simp split: sum.splits)

lemma getSAMFields_4: "getSAMFields 4 rest chr pos = Inr (chr \<noteq> ''*'', chr, pos)"
  by (subst getSAMFields.simps) simp

lemma getSAMChromosomePos_fields:
  "getSAMChromosomePos line chr pos =
     (if length (tabFields line) < 5
      then Inr (False, if 4 \<le> length (tabFields line) then tabFields line ! 2 else chr, pos)
      else
        (case stoll (tabFields line ! 3) of
           Inl e \<Rightarrow> Inl e
         | Inr v \<Rightarrow> Inr (tabFields line ! 2 \<noteq> ''*'', tabFields line ! 2, v)))"
proof -
  define nxt where "nxt = (\<lambda>r. tl (dropWhile (\<lambda>c. c \<noteq> tab) r))"
  define tok where "tok = (\<lambda>r. takeWhile (\<lambda>c. c \<noteq> tab) r)"
  define r1 where "r1 = nxt line"
  define r2 where "r2 = nxt r1"
  define r3 where "r3 = nxt r2"
  define r4 where "r4 = nxt r3"
  have ft: "tabFields r = tok r # tabFields (nxt r)" if "tab \<in> set r" for r
    using fields_tab [OF that] by (simp add: nxt_def tok_def)
  have g0: "getSAMFields 0 line c p = getSAMFields 1 r1 c p" if "tab \<in> set line" for c p
    using getSAMFields_0 [OF that] by (simp add: r1_def nxt_def)
  have g1: "getSAMFields 1 r1 c p = getSAMFields 2 r2 c p" if "tab \<in> set r1" for c p
    using getSAMFields_1 [OF that] by (simp add: r2_def nxt_def)
  have g2: "getSAMFields 2 r2 c p = getSAMFields 3 r3 (tok r2) p" if "tab \<in> set r2" for c p
    using getSAMFields_2 [OF that] by (simp add: r3_def nxt_def tok_def)
  have g3: "getSAMFields 3 r3 c p =
      (case stoll (tok r3) of Inl e \<Rightarrow> Inl e | Inr v \<Rightarrow> Inr (c \<noteq> ''*'', c, v))"
    if "tab \<in> set r3" for c p
    using getSAMFields_3 [OF that, of c p] by (simp add: getSAMFields_4 tok_def split: sum.splits)
  consider (t0) "tab \<notin> set line"
    | (t1) "tab \<in> set line" "tab \<notin> set r1"
    | (t2) "tab \<in> set line" "tab \<in> set r1" "tab \<notin> set r2"
    | (t3) "tab \<in> set line" "tab \<in> set r1" "tab \<in> set r2" "tab \<notin> set r3"
    | (t4) "tab \<in> set line" "tab \<in> set r1" "tab \<in> set r2" "tab \<in> set r3"
    by blast
  then show ?thesis
  proof cases
    case t0
    then show ?thesis
      by (simp add: getSAMChromosomePos_def getSAMFields_stop fields_no_tab)
  next
    case t1
    have "tabFields line = [tok line, r1]"
      using ft [OF t1(1)] fields_no_tab [OF t1(2)] by (simp add: r1_def)
    moreover have "getSAMChromosomePos line chr pos = Inr (False, chr, pos)"
      unfolding getSAMChromosomePos_def g0 [OF t1(1)]
      using t1(2) by (simp add: getSAMFields_stop)
    ultimately show ?thesis by simp
  next
    case t2
    have "tabFields line = [tok line, tok r1, r2]"
      using ft [OF t2(1)] ft [OF t2(2)] fields_no_tab [OF t2(3)] by (simp add: r1_def r2_def)
    moreover have "getSAMChromosomePos line chr pos = Inr (False, chr, pos)"
      unfolding getSAMChromosomePos_def g0 [OF t2(1)] g1 [OF t2(2)]
      using t2(3) by (simp add: getSAMFields_stop)
    ultimately show ?thesis by simp
  next
    case t3
    have "tabFields line = [tok line, tok r1, tok r2, r3]"
      using ft [OF t3(1)] ft [OF t3(2)] ft [OF t3(3)] fields_no_tab [OF t3(4)]
      by (simp add: r1_def r2_def r3_def)
    moreover have "getSAMChromosomePos line chr pos = Inr (False, tok r2, pos)"
      unfolding getSAMChromosomePos_def g0 [OF t3(1)] g1 [OF t3(2)] g2 [OF t3(3)]
      using t3(4) by (simp add: getSAMFields_stop)
    ultimately show ?thesis by simp
  next
    case t4
    have f: "tabFields line = tok line # tok r1 # tok r2 # tok r3 # tabFields r4"
      using ft [OF t4(1)] ft [OF t4(2)] ft [OF t4(3)] ft [OF t4(4)]
      by (simp add: r1_def r2_def r3_def r4_def)
    have len: "5 \<le> length (tabFields line)"
      using fields_nonempty [of r4] by (cases "tabFields r4") (simp_all add: f)
    have "getSAMChromosomePos line chr pos =
        (case stoll (tok r3) of
           Inl e \<Rightarrow> Inl e
         | Inr v \<Rightarrow> Inr (tok r2 \<noteq> ''*'', tok r2, v))"
      unfolding getSAMChromosomePos_def g0 [OF t4(1)] g1 [OF t4(2)] g2 [OF t4(3)] g3 [OF t4(4)]
      by simp
    moreover have "tabFields line ! 2 = tok r2" "tabFields line ! 3 = tok r3"
      by (simp_all add: f)
    ultimately show ?thesis using len by (simp split: sum.splits)
  qed
qed

lemma processLine_skip:
  "lineStr = [] \<or> hd lineStr = CHR ''@'' \<Longrightarrow> processLine known lineStr s = Inr s"
  by (simp add: processLine_def)

lemma processLine_short:
  assumes "lineStr \<noteq> []" "hd lineStr \<noteq> CHR ''@''" "length (tabFields lineStr) < 5"
  shows "processLine known lineStr s
           = Inr (s\<lparr>freeLinePool := freeLinePool s - 1 + 1,
                    samChromosome := (if 4 \<le> length (tabFields lineStr)
                                      then tabFields lineStr ! 2 else samChromosome s)\<rparr>)"
  using assms
  by (simp add: processLine_def getSAMChromosomePos_fields getFreeStringPointer_def
      returnLine_def Let_def)

lemma processLine_unmapped:
  assumes "lineStr \<noteq> []" "hd lineStr \<noteq> CHR ''@''" "5 \<le> length (tabFields lineStr)"
    and "stoll (tabFields lineStr ! 3) = Inr v" "tabFields lineStr ! 2 = ''*''"
  shows "processLine known lineStr s
           = Inr (s\<lparr>freeLinePool := freeLinePool s - 1 + 1, samChromosome := ''*'', samPos := v\<rparr>)"
  using assms
  by (simp add: processLine_def getSAMChromosomePos_fields getFreeStringPointer_def
      returnLine_def Let_def)

lemma processLine_unreadable:
  assumes "lineStr \<noteq> []" "hd lineStr \<noteq> CHR ''@''" "5 \<le> length (tabFields lineStr)"
    and "stoll (tabFields lineStr ! 3) = Inl e"
  shows "processLine known lineStr s = Inl (ParseException e)"
  using assms
  by (simp add: processLine_def getSAMChromosomePos_fields getFreeStringPointer_def Let_def)

lemma processLine_mapped:
  assumes "lineStr \<noteq> []" "hd lineStr \<noteq> CHR ''@''" "5 \<le> length (tabFields lineStr)"
    and "stoll (tabFields lineStr ! 3) = Inr v" "tabFields lineStr ! 2 = chr" "chr \<noteq> ''*''"
  shows "processLine known lineStr s =
     (if chr \<noteq> d_chromosome s \<and> \<not> known chr then Inl UnknownChromosome
      else if (if chr = d_chromosome s then lastPos s else 0) > v then Inl InputNotSorted
      else Inr (s\<lparr>d_chromosome := chr, linePool := linePool s @ [lineStr],
                  freeLinePool := freeLinePool s - 1, samChromosome := chr, samPos := v,
                  reloadPos := reloadLoop v (if chr = d_chromosome s then reloadPos s
                                             else loadingBlockSize),
                  lastPos := v\<rparr>))"
  using assms
  by (simp add: processLine_def getSAMChromosomePos_fields getFreeStringPointer_def Let_def)

text \<open>
  C8.  The claim: a non-empty line that is not a header is dropped (its buffer goes back
  to the free pool, nothing is pushed) exactly when it has fewer than 4 tab-separated
  fields or its third field is \<open>*\<close>, and every line with at least 4 fields and another
  third field is pushed.  \<open>getSAMChromosomePos\<close> looks for a tab after each of the first
  four fields, so a line of exactly 4 fields is dropped.  What holds: the line is dropped
  exactly when it has fewer than 5 tab-separated fields (fewer than 4 tabs), or its fourth
  field is read by \<open>stoll\<close> and its third field is \<open>*\<close>; it is pushed exactly when it
  has at least 5 fields, \<open>stoll\<close> reads the fourth, the third is not \<open>*\<close>, the reference
  has the chromosome when the chromosome changes, and the order test passes; the driver
  ends with the exception of \<open>stoll\<close> exactly when the line has at least 5 fields and
  \<open>stoll\<close> cannot read the fourth.
\<close>

theorem line_filter:
  assumes "lineStr \<noteq> []" and "hd lineStr \<noteq> CHR ''@''"
  shows "((\<exists>s'. processLine known lineStr s = Inr s' \<and> linePool s' = linePool s
              \<and> freeLinePool s' = freeLinePool s - 1 + 1)
          \<longleftrightarrow> length (tabFields lineStr) < 5
              \<or> (\<exists>v. stoll (tabFields lineStr ! 3) = Inr v \<and> tabFields lineStr ! 2 = ''*''))
       \<and> ((\<exists>s'. processLine known lineStr s = Inr s' \<and> linePool s' = linePool s @ [lineStr])
          \<longleftrightarrow> 5 \<le> length (tabFields lineStr)
              \<and> (\<exists>v. stoll (tabFields lineStr ! 3) = Inr v \<and> tabFields lineStr ! 2 \<noteq> ''*''
                    \<and> (tabFields lineStr ! 2 = d_chromosome s \<or> known (tabFields lineStr ! 2))
                    \<and> (if tabFields lineStr ! 2 = d_chromosome s then lastPos s else 0) \<le> v))
       \<and> ((\<exists>e. processLine known lineStr s = Inl (ParseException e))
          \<longleftrightarrow> 5 \<le> length (tabFields lineStr) \<and> (\<exists>e. stoll (tabFields lineStr ! 3) = Inl e))"
proof -
  consider (short) "length (tabFields lineStr) < 5"
    | (bad) e where "5 \<le> length (tabFields lineStr)" "stoll (tabFields lineStr ! 3) = Inl e"
    | (star) v where "5 \<le> length (tabFields lineStr)" "stoll (tabFields lineStr ! 3) = Inr v"
        "tabFields lineStr ! 2 = ''*''"
    | (mapped) v where "5 \<le> length (tabFields lineStr)" "stoll (tabFields lineStr ! 3) = Inr v"
        "tabFields lineStr ! 2 \<noteq> ''*''"
    by (cases "stoll (tabFields lineStr ! 3)") fastforce+
  then show ?thesis
  proof cases
    case short
    then show ?thesis
      using processLine_short [OF assms short, of known s] by simp
  next
    case bad
    then show ?thesis
      using processLine_unreadable [OF assms bad, of known s] by simp
  next
    case star
    then show ?thesis
      using processLine_unmapped [OF assms star, of known s] by simp
  next
    case mapped
    then show ?thesis
      using processLine_mapped [OF assms mapped(1,2) refl mapped(3), of known s] by auto
  qed
qed

theorem line_filter_witness:
  "joinTabs [''r1'', ''0'', ''c1'', ''10'', ''60''] \<noteq> []
   \<and> hd (joinTabs [''r1'', ''0'', ''c1'', ''10'', ''60'']) \<noteq> CHR ''@''
   \<and> (\<exists>s'. processLine (\<lambda>c. True) (joinTabs [''r1'', ''0'', ''c1'', ''10'', ''60'']) driver0 = Inr s'
          \<and> linePool s' = linePool driver0 @ [joinTabs [''r1'', ''0'', ''c1'', ''10'', ''60'']])
   \<and> (\<exists>s'. processLine (\<lambda>c. True) (joinTabs [''r2'', ''4'', ''*'', ''0'', ''0'']) driver0 = Inr s'
          \<and> linePool s' = linePool driver0 \<and> freeLinePool s' = freeLinePool driver0 - 1 + 1)
   \<and> (\<exists>e. processLine (\<lambda>c. True) (joinTabs [''r5'', ''0'', ''c1'', ''x'', ''60'']) driver0
          = Inl (ParseException e))"
proof -
  have f1: "tabFields (joinTabs [''r1'', ''0'', ''c1'', ''10'', ''60'']) = [''r1'', ''0'', ''c1'', ''10'', ''60'']"
    and f2: "tabFields (joinTabs [''r2'', ''4'', ''*'', ''0'', ''0'']) = [''r2'', ''4'', ''*'', ''0'', ''0'']"
    by (simp_all add: tab_def)
  have s1: "stoll ''10'' = Inr 10" and s2: "stoll ''0'' = Inr 0"
    by (simp_all add: stoll_def strtoll_def isspace_def isdigit_def decimal_def)
  have h: "joinTabs [''r1'', ''0'', ''c1'', ''10'', ''60''] \<noteq> []"
    "hd (joinTabs [''r1'', ''0'', ''c1'', ''10'', ''60'']) \<noteq> CHR ''@''"
    and h': "joinTabs [''r2'', ''4'', ''*'', ''0'', ''0''] \<noteq> []"
    "hd (joinTabs [''r2'', ''4'', ''*'', ''0'', ''0'']) \<noteq> CHR ''@''"
    by simp_all
  have a: "\<exists>s'. processLine (\<lambda>c. True) (joinTabs [''r1'', ''0'', ''c1'', ''10'', ''60'']) driver0 = Inr s'
          \<and> linePool s' = linePool driver0 @ [joinTabs [''r1'', ''0'', ''c1'', ''10'', ''60'']]"
    using line_filter [OF h, of "\<lambda>c. True" driver0]
    by (simp only: f1) (simp add: driver0_def s1)
  have b: "\<exists>s'. processLine (\<lambda>c. True) (joinTabs [''r2'', ''4'', ''*'', ''0'', ''0'']) driver0 = Inr s'
          \<and> linePool s' = linePool driver0 \<and> freeLinePool s' = freeLinePool driver0 - 1 + 1"
    using line_filter [OF h', of "\<lambda>c. True" driver0]
    by (simp only: f2) (simp add: s2)
  have f3: "tabFields (joinTabs [''r5'', ''0'', ''c1'', ''x'', ''60'']) = [''r5'', ''0'', ''c1'', ''x'', ''60'']"
    by (simp add: tab_def)
  have s3: "stoll ''x'' = Inl invalid_argument"
    by (simp add: stoll_def strtoll_def isspace_def isdigit_def decimal_def)
  have h'': "joinTabs [''r5'', ''0'', ''c1'', ''x'', ''60''] \<noteq> []"
    "hd (joinTabs [''r5'', ''0'', ''c1'', ''x'', ''60'']) \<noteq> CHR ''@''"
    by simp_all
  have c: "\<exists>e. processLine (\<lambda>c. True) (joinTabs [''r5'', ''0'', ''c1'', ''x'', ''60'']) driver0
          = Inl (ParseException e)"
    using line_filter [OF h'', of "\<lambda>c. True" driver0]
    by (simp only: f3) (simp add: s3)
  show ?thesis by (intro conjI h a b c)
qed

theorem line_filter_counterexample:
  "joinTabs [''r3'', ''0'', ''c1'', ''5''] \<noteq> []
   \<and> hd (joinTabs [''r3'', ''0'', ''c1'', ''5'']) \<noteq> CHR ''@''
   \<and> tabFields (joinTabs [''r3'', ''0'', ''c1'', ''5'']) = [''r3'', ''0'', ''c1'', ''5'']
   \<and> length (tabFields (joinTabs [''r3'', ''0'', ''c1'', ''5''])) = 4
   \<and> tabFields (joinTabs [''r3'', ''0'', ''c1'', ''5'']) ! 2 \<noteq> ''*''
   \<and> processLine (\<lambda>c. True) (joinTabs [''r3'', ''0'', ''c1'', ''5'']) driver0
       = Inr (driver0\<lparr>freeLinePool := 1, samChromosome := ''c1''\<rparr>)
   \<and> linePool (driver0\<lparr>freeLinePool := 1, samChromosome := ''c1''\<rparr>) = []"
proof -
  have f: "tabFields (joinTabs [''r3'', ''0'', ''c1'', ''5'']) = [''r3'', ''0'', ''c1'', ''5'']"
    by (simp add: tab_def)
  have h: "joinTabs [''r3'', ''0'', ''c1'', ''5''] \<noteq> []"
    "hd (joinTabs [''r3'', ''0'', ''c1'', ''5'']) \<noteq> CHR ''@''"
    by simp_all
  have "length (tabFields (joinTabs [''r3'', ''0'', ''c1'', ''5''])) < 5"
    by (simp only: f) simp
  from processLine_short [OF h this, of "\<lambda>c. True" driver0]
  have "processLine (\<lambda>c. True) (joinTabs [''r3'', ''0'', ''c1'', ''5'']) driver0
       = Inr (driver0\<lparr>freeLinePool := 1, samChromosome := ''c1''\<rparr>)"
    by (simp only: f) (simp add: driver0_def)
  then show ?thesis using h by (simp only: f) (simp add: driver0_def)
qed

lemma outOfOrder_Nil: "\<not> outOfOrder c l []"
  by (simp add: outOfOrder_def)

lemma outOfOrder_Cons:
  "outOfOrder c l ((chr, pos) # rs)
   \<longleftrightarrow> (chr = c \<and> pos < l) \<or> (chr \<noteq> c \<and> pos < 0) \<or> outOfOrder chr pos rs"
proof -
  define Q where "Q = (\<lambda>i.
        (let before = (if i = 0 then (c, l) else ((chr, pos) # rs) ! (i - 1)) in
         (fst before = fst (((chr, pos) # rs) ! i) \<and> snd (((chr, pos) # rs) ! i) < snd before)
         \<or> (fst before \<noteq> fst (((chr, pos) # rs) ! i) \<and> snd (((chr, pos) # rs) ! i) < 0)))"
  have "outOfOrder c l ((chr, pos) # rs) \<longleftrightarrow> (\<exists>i<Suc (length rs). Q i)"
    by (simp add: outOfOrder_def Q_def)
  also have "\<dots> \<longleftrightarrow> Q 0 \<or> (\<exists>i<length rs. Q (Suc i))"
    by (rule Ex_less_Suc2)
  also have "Q 0 \<longleftrightarrow> (chr = c \<and> pos < l) \<or> (chr \<noteq> c \<and> pos < 0)"
    by (auto simp: Q_def)
  also have "(\<exists>i<length rs. Q (Suc i)) \<longleftrightarrow> outOfOrder chr pos rs"
  proof -
    have "Q (Suc i) \<longleftrightarrow>
        (let before = (if i = 0 then (chr, pos) else rs ! (i - 1)) in
         (fst before = fst (rs ! i) \<and> snd (rs ! i) < snd before)
         \<or> (fst before \<noteq> fst (rs ! i) \<and> snd (rs ! i) < 0))" for i
      by (cases i) (simp_all add: Q_def)
    then show ?thesis by (simp add: outOfOrder_def)
  qed
  finally show ?thesis by blast
qed

lemma accepted_Some:
  "accepted lineStr = Some (chr, v) \<longleftrightarrow>
   lineStr \<noteq> [] \<and> hd lineStr \<noteq> CHR ''@'' \<and> 5 \<le> length (tabFields lineStr)
   \<and> stoll (tabFields lineStr ! 3) = Inr v \<and> tabFields lineStr ! 2 = chr \<and> chr \<noteq> ''*''"
  by (auto simp: accepted_def split: sum.splits)

lemma processLine_not_accepted:
  assumes "accepted lineStr = None" "\<not> unreadable lineStr"
  shows "\<exists>s'. processLine known lineStr s = Inr s' \<and> d_chromosome s' = d_chromosome s
           \<and> lastPos s' = lastPos s \<and> linePool s' = linePool s"
proof (cases "lineStr = [] \<or> hd lineStr = CHR ''@''")
  case True
  then show ?thesis by (simp add: processLine_skip)
next
  case False
  then have h: "lineStr \<noteq> []" "hd lineStr \<noteq> CHR ''@''" by simp_all
  show ?thesis
  proof (cases "length (tabFields lineStr) < 5")
    case True
    then show ?thesis using processLine_short [OF h True, of known s] by simp
  next
    case False
    then have len: "5 \<le> length (tabFields lineStr)" by simp
    obtain v where v: "stoll (tabFields lineStr ! 3) = Inr v"
      using assms(2) h len by (cases "stoll (tabFields lineStr ! 3)") (simp_all add: unreadable_def)
    have "tabFields lineStr ! 2 = ''*''"
      using assms(1) h len v by (simp add: accepted_def split: if_splits)
    then show ?thesis using processLine_unmapped [OF h len v, of known s] by simp
  qed
qed

lemma processLine_accepted:
  assumes "accepted lineStr = Some (chr, v)" "known chr"
  shows "processLine known lineStr s =
     (if (if chr = d_chromosome s then lastPos s else 0) > v then Inl InputNotSorted
      else Inr (s\<lparr>d_chromosome := chr, linePool := linePool s @ [lineStr],
                  freeLinePool := freeLinePool s - 1, samChromosome := chr, samPos := v,
                  reloadPos := reloadLoop v (if chr = d_chromosome s then reloadPos s
                                             else loadingBlockSize),
                  lastPos := v\<rparr>))"
proof -
  have h: "lineStr \<noteq> []" "hd lineStr \<noteq> CHR ''@''" "5 \<le> length (tabFields lineStr)"
    "stoll (tabFields lineStr ! 3) = Inr v" "tabFields lineStr ! 2 = chr" "chr \<noteq> ''*''"
    using assms(1) by (simp_all add: accepted_Some)
  show ?thesis
    using processLine_mapped [OF h, of known s] assms(2) by simp
qed

lemma processLines_order:
  assumes "\<forall>l\<in>set lines. \<not> unreadable l"
    and "\<forall>l\<in>set lines. \<forall>r. accepted l = Some r \<longrightarrow> known (fst r)"
  shows "(outOfOrder (d_chromosome s) (lastPos s) (List.map_filter accepted lines)
            \<longrightarrow> processLines known lines s = Inl InputNotSorted)
       \<and> (\<not> outOfOrder (d_chromosome s) (lastPos s) (List.map_filter accepted lines)
            \<longrightarrow> (\<exists>s'. processLines known lines s = Inr s'
                 \<and> linePool s' = linePool s @ filter (\<lambda>l. accepted l \<noteq> None) lines))"
  using assms
proof (induction lines arbitrary: s)
  case Nil
  then show ?case by (simp add: map_filter_simps outOfOrder_Nil)
next
  case (Cons l lines)
  have IH: "(outOfOrder (d_chromosome t) (lastPos t) (List.map_filter accepted lines)
            \<longrightarrow> processLines known lines t = Inl InputNotSorted)
       \<and> (\<not> outOfOrder (d_chromosome t) (lastPos t) (List.map_filter accepted lines)
            \<longrightarrow> (\<exists>s'. processLines known lines t = Inr s'
                 \<and> linePool s' = linePool t @ filter (\<lambda>l. accepted l \<noteq> None) lines))" for t
    using Cons.IH [of t] Cons.prems by simp
  show ?case
  proof (cases "accepted l")
    case None
    have "\<not> unreadable l" using Cons.prems(1) by simp
    from processLine_not_accepted [OF None this, of known s]
    obtain s1 where s1: "processLine known l s = Inr s1" "d_chromosome s1 = d_chromosome s"
      "lastPos s1 = lastPos s" "linePool s1 = linePool s"
      by blast
    show ?thesis
      using IH [of s1] s1 None by (simp add: map_filter_simps)
  next
    case (Some r)
    obtain chr v where r: "r = (chr, v)" by (cases r)
    have k: "known chr" using Cons.prems(2) Some r by auto
    note pl = processLine_accepted [where known = known and s = s, OF Some [unfolded r] k]
    show ?thesis
    proof (cases "(if chr = d_chromosome s then lastPos s else 0) > v")
      case True
      then have "outOfOrder (d_chromosome s) (lastPos s) ((chr, v) # List.map_filter accepted lines)"
        by (auto simp: outOfOrder_Cons split: if_splits)
      then show ?thesis using pl True Some r by (simp add: map_filter_simps)
    next
      case False
      define s1 where "s1 = s\<lparr>d_chromosome := chr, linePool := linePool s @ [l],
                  freeLinePool := freeLinePool s - 1, samChromosome := chr, samPos := v,
                  reloadPos := reloadLoop v (if chr = d_chromosome s then reloadPos s
                                             else loadingBlockSize),
                  lastPos := v\<rparr>"
      have p1: "processLine known l s = Inr s1" using pl False by (simp add: s1_def)
      have o: "outOfOrder (d_chromosome s) (lastPos s) ((chr, v) # List.map_filter accepted lines)
          \<longleftrightarrow> outOfOrder chr v (List.map_filter accepted lines)"
        using False by (auto simp: outOfOrder_Cons split: if_splits)
      have s1f: "d_chromosome s1 = chr" "lastPos s1 = v" "linePool s1 = linePool s @ [l]"
        by (simp_all add: s1_def)
      show ?thesis
        using IH [of s1] p1 Some r o s1f by (simp add: map_filter_simps)
    qed
  qed
qed

lemma outOfOrder_nonneg:
  assumes "\<forall>r\<in>set rs. 0 \<le> snd r"
  shows "outOfOrder c 0 rs
     \<longleftrightarrow> (\<exists>i. Suc i < length rs \<and> fst (rs ! i) = fst (rs ! Suc i)
               \<and> snd (rs ! Suc i) < snd (rs ! i))"
proof
  assume "outOfOrder c 0 rs"
  then obtain i where i: "i < length rs"
    "(let before = (if i = 0 then (c, 0) else rs ! (i - 1)) in
         (fst before = fst (rs ! i) \<and> snd (rs ! i) < snd before)
         \<or> (fst before \<noteq> fst (rs ! i) \<and> snd (rs ! i) < 0))"
    unfolding outOfOrder_def by blast
  have nn: "0 \<le> snd (rs ! i)" using assms i(1) by simp
  then have "i \<noteq> 0" using i(2) by (auto simp: Let_def split: if_splits)
  then obtain j where j: "i = Suc j" by (cases i) auto
  then have "fst (rs ! j) = fst (rs ! Suc j) \<and> snd (rs ! Suc j) < snd (rs ! j)"
    using i(2) nn by (auto simp: Let_def split: if_splits)
  then show "\<exists>i. Suc i < length rs \<and> fst (rs ! i) = fst (rs ! Suc i)
               \<and> snd (rs ! Suc i) < snd (rs ! i)"
    using i(1) j by blast
next
  assume "\<exists>i. Suc i < length rs \<and> fst (rs ! i) = fst (rs ! Suc i)
               \<and> snd (rs ! Suc i) < snd (rs ! i)"
  then obtain j where j: "Suc j < length rs" "fst (rs ! j) = fst (rs ! Suc j)"
    "snd (rs ! Suc j) < snd (rs ! j)"
    by blast
  show "outOfOrder c 0 rs"
    unfolding outOfOrder_def
    by (rule exI [of _ "Suc j"]) (use j in \<open>simp add: Let_def\<close>)
qed

text \<open>
  C7.  The driver fails with InputNotSorted exactly when two consecutively accepted
  records lie on the same chromosome and the earlier has the strictly greater position;
  a decrease that coincides with a chromosome change never makes it fail, since
  \<open>lastPos\<close> is 0 when the test \<open>lastPos > samPos\<close> runs after a chromosome change.  The
  positions are those of a SAM file, which counts from 1 (0 for a record without a
  position), so no accepted position is negative; \<open>stoll\<close> reads every fourth field and
  the reference has every chromosome, so that the driver fails in no other way.  When
  the driver does not fail it pushes the accepted lines, in order.
\<close>

theorem order_check:
  assumes "\<forall>l\<in>set lines. \<not> unreadable l"
    and "\<forall>l\<in>set lines. \<forall>r. accepted l = Some r \<longrightarrow> known (fst r)"
  shows "((\<forall>r\<in>set (List.map_filter accepted lines). 0 \<le> snd r)
            \<longrightarrow> (processLines known lines driver0 = Inl InputNotSorted
                 \<longleftrightarrow> (\<exists>i. Suc i < length (List.map_filter accepted lines)
                        \<and> fst (List.map_filter accepted lines ! i)
                            = fst (List.map_filter accepted lines ! Suc i)
                        \<and> snd (List.map_filter accepted lines ! Suc i)
                            < snd (List.map_filter accepted lines ! i))))
       \<and> (processLines known lines driver0 = Inl InputNotSorted
            \<or> (\<exists>s. processLines known lines driver0 = Inr s
                   \<and> linePool s = filter (\<lambda>l. accepted l \<noteq> None) lines))"
proof -
  have d0: "d_chromosome driver0 = []" "lastPos driver0 = 0" "linePool driver0 = []"
    by (simp_all add: driver0_def)
  note po = processLines_order [OF assms, of driver0, unfolded d0]
  have a: "processLines known lines driver0 = Inl InputNotSorted
            \<longleftrightarrow> outOfOrder [] 0 (List.map_filter accepted lines)"
    using po by auto
  have b: "processLines known lines driver0 = Inl InputNotSorted
            \<or> (\<exists>s. processLines known lines driver0 = Inr s
                   \<and> linePool s = filter (\<lambda>l. accepted l \<noteq> None) lines)"
    using po by (cases "outOfOrder [] 0 (List.map_filter accepted lines)") simp_all
  have c: "(\<forall>r\<in>set (List.map_filter accepted lines). 0 \<le> snd r)
            \<longrightarrow> (processLines known lines driver0 = Inl InputNotSorted
                 \<longleftrightarrow> (\<exists>i. Suc i < length (List.map_filter accepted lines)
                        \<and> fst (List.map_filter accepted lines ! i)
                            = fst (List.map_filter accepted lines ! Suc i)
                        \<and> snd (List.map_filter accepted lines ! Suc i)
                            < snd (List.map_filter accepted lines ! i)))"
    using a outOfOrder_nonneg [of "List.map_filter accepted lines" "[]"] by simp
  show ?thesis by (intro conjI c b)
qed

lemma accepted_examples:
  "accepted sam_c1_10 = Some (''c1'', 10)" "accepted sam_c1_20 = Some (''c1'', 20)"
  "accepted sam_c2_5 = Some (''c2'', 5)"
  by (simp_all add: sam_c1_10_def sam_c1_20_def sam_c2_5_def accepted_def tab_def
      stoll_def strtoll_def isspace_def isdigit_def decimal_def)

lemma readable_examples:
  "\<not> unreadable sam_c1_10" "\<not> unreadable sam_c1_20" "\<not> unreadable sam_c2_5"
  by (simp_all add: sam_c1_10_def sam_c1_20_def sam_c2_5_def unreadable_def tab_def
      stoll_def strtoll_def isspace_def isdigit_def decimal_def)

theorem order_check_witness:
  "\<not> unreadable sam_c1_10 \<and> \<not> unreadable sam_c1_20 \<and> \<not> unreadable sam_c2_5
   \<and> List.map_filter accepted [sam_c1_10, sam_c1_20, sam_c2_5] = [(''c1'', 10), (''c1'', 20), (''c2'', 5)]
   \<and> (\<exists>s. processLines (\<lambda>c. True) [sam_c1_10, sam_c1_20, sam_c2_5] driver0 = Inr s
          \<and> linePool s = [sam_c1_10, sam_c1_20, sam_c2_5])
   \<and> List.map_filter accepted [sam_c1_20, sam_c1_10] = [(''c1'', 20), (''c1'', 10)]
   \<and> processLines (\<lambda>c. True) [sam_c1_20, sam_c1_10] driver0 = Inl InputNotSorted"
proof -
  have h1: "\<forall>l\<in>set [sam_c1_10, sam_c1_20, sam_c2_5]. \<not> unreadable l"
    and h1': "\<forall>l\<in>set [sam_c1_20, sam_c1_10]. \<not> unreadable l"
    by (simp_all add: readable_examples)
  have h2: "\<forall>l\<in>set [sam_c1_10, sam_c1_20, sam_c2_5]. \<forall>r. accepted l = Some r \<longrightarrow> (\<lambda>c. True) (fst r)"
    and h2': "\<forall>l\<in>set [sam_c1_20, sam_c1_10]. \<forall>r. accepted l = Some r \<longrightarrow> (\<lambda>c. True) (fst r)"
    by simp_all
  have m: "List.map_filter accepted [sam_c1_10, sam_c1_20, sam_c2_5] = [(''c1'', 10), (''c1'', 20), (''c2'', 5)]"
    and m': "List.map_filter accepted [sam_c1_20, sam_c1_10] = [(''c1'', 20), (''c1'', 10)]"
    by (simp_all add: map_filter_simps accepted_examples)
  have n: "\<forall>r\<in>set [(''c1'', 10), (''c1'', 20), (''c2'', 5::int)]. 0 \<le> snd r"
    and n': "\<forall>r\<in>set [(''c1'', 20), (''c1'', 10::int)]. 0 \<le> snd r"
    by simp_all
  have o: "\<not> (\<exists>i. Suc i < length [(''c1'', 10), (''c1'', 20), (''c2'', 5::int)]
        \<and> fst ([(''c1'', 10), (''c1'', 20), (''c2'', 5::int)] ! i)
            = fst ([(''c1'', 10), (''c1'', 20), (''c2'', 5::int)] ! Suc i)
        \<and> snd ([(''c1'', 10), (''c1'', 20), (''c2'', 5::int)] ! Suc i)
            < snd ([(''c1'', 10), (''c1'', 20), (''c2'', 5::int)] ! i))"
    unfolding outOfOrder_nonneg [OF n, of "[]", symmetric]
    by (simp add: outOfOrder_Cons outOfOrder_Nil)
  have o': "\<exists>i. Suc i < length [(''c1'', 20), (''c1'', 10::int)]
        \<and> fst ([(''c1'', 20), (''c1'', 10::int)] ! i) = fst ([(''c1'', 20), (''c1'', 10::int)] ! Suc i)
        \<and> snd ([(''c1'', 20), (''c1'', 10::int)] ! Suc i) < snd ([(''c1'', 20), (''c1'', 10::int)] ! i)"
    unfolding outOfOrder_nonneg [OF n', of "[]", symmetric]
    by (simp add: outOfOrder_Cons outOfOrder_Nil)
  note t = order_check [OF h1 h2, unfolded m] and t' = order_check [OF h1' h2', unfolded m']
  have "processLines (\<lambda>c. True) [sam_c1_10, sam_c1_20, sam_c2_5] driver0 \<noteq> Inl InputNotSorted"
    using t n o by blast
  then have a: "\<exists>s. processLines (\<lambda>c. True) [sam_c1_10, sam_c1_20, sam_c2_5] driver0 = Inr s
          \<and> linePool s = [sam_c1_10, sam_c1_20, sam_c2_5]"
    using t by (simp add: accepted_examples)
  have b: "processLines (\<lambda>c. True) [sam_c1_20, sam_c1_10] driver0 = Inl InputNotSorted"
    using t' n' o' by blast
  show ?thesis by (intro conjI readable_examples m m' a b)
qed

section \<open>Strands and locations of the reference positions\<close>

lemma newPos_fresh:
  "set_strand s (freshPosition w i t) = freshPosition w i s"
  "set_chr_loc (w_chromosome w) (w_location w + int i) initialize = freshPosition w i CHR ''?''"
  by (simp_all add: set_strand_def set_chr_loc_def initialize_def freshPosition_def)

lemma freshPosition_cong:
  "w_chromosome w' = w_chromosome w \<Longrightarrow> w_location w' = w_location w \<Longrightarrow>
   freshPosition w' i s = freshPosition w i s"
  by (simp add: freshPosition_def)

lemma map_upt_shift: "map f [0..<Suc n] = f 0 # map (\<lambda>j. f (Suc j)) [0..<n]"
  by (simp add: upt_conv_Cons map_Suc_upt [symmetric] del: upt_Suc)

lemma appendRefLoop_nonCG:
  assumes "\<not> CG_only g"
  shows "appendRefLoop g guard rest i w =
     Some (w\<lparr>refPositions := refPositions w
                 @ map (\<lambda>j. freshPosition w (i + j) (strandNonCG g (rest ! j))) [0..<length rest],
              lastBase := last (lastBase w # rest)\<rparr>)"
proof (induction rest arbitrary: i w)
  case Nil
  then show ?case by simp
next
  case (Cons b rest)
  define w1 where "w1 = w\<lparr>refPositions := refPositions w @ [freshPosition w i (strandNonCG g b)],
      lastBase := b\<rparr>"
  have step: "appendRefLoop g guard (b # rest) i w = appendRefLoop g guard rest (Suc i) w1"
    using assms by (simp add: w1_def newPos_fresh strandNonCG_def)
  have fp: "freshPosition w1 k s = freshPosition w k s" for k s
    by (simp add: w1_def freshPosition_def)
  show ?case
    unfolding step Cons.IH [of "Suc i" w1] fp
    by (simp add: w1_def map_upt_shift del: upt_Suc)
qed

lemma fixLast_snoc_fresh:
  "fixLast b rest (ps @ [freshPosition w i s])
   = ps @ [freshPosition w i (if rest \<noteq> [] \<and> b = CHR ''C'' \<and> hd rest = CHR ''G'' then CHR ''+'' else s)]"
  by (simp add: fixLast_def set_back_def set_strand_def freshPosition_def)

lemma strandCG_0:
  "strandCG lb (b # rest) 0
   = (if rest \<noteq> [] \<and> b = CHR ''C'' \<and> hd rest = CHR ''G'' then CHR ''+''
      else if lb = CHR ''C'' \<and> b = CHR ''G'' then CHR ''-'' else CHR ''?'')"
  by (cases rest) (simp_all add: strandCG_def)

lemma strandCG_Suc: "strandCG lb (b # rest) (Suc j) = strandCG b rest j"
  by (cases j) (simp_all add: strandCG_def)

lemma appendRefLoop_CG:
  assumes "CG_only g"
    and "guard \<or> refPositions w \<noteq> [] \<or> lastBase w \<noteq> CHR ''C'' \<or> rest = [] \<or> hd rest \<noteq> CHR ''G''"
  shows "appendRefLoop g guard rest i w =
     Some (w\<lparr>refPositions := fixLast (lastBase w) rest (refPositions w)
                 @ map (\<lambda>j. freshPosition w (i + j) (strandCG (lastBase w) rest j)) [0..<length rest],
              lastBase := last (lastBase w # rest)\<rparr>)"
  using assms(2)
proof (induction rest arbitrary: i w)
  case Nil
  then show ?case by (simp add: fixLast_def)
next
  case (Cons b rest)
  define s0 where "s0 = (if lastBase w = CHR ''C'' \<and> b = CHR ''G'' then CHR ''-'' else CHR ''?'')"
  define w1 where "w1 = w\<lparr>refPositions := fixLast (lastBase w) (b # rest) (refPositions w)
      @ [freshPosition w i s0], lastBase := b\<rparr>"
  have step: "appendRefLoop g guard (b # rest) i w = appendRefLoop g guard rest (Suc i) w1"
    using assms(1) Cons.prems
    by (auto simp: w1_def s0_def newPos_fresh fixLast_def)
  have fp: "freshPosition w1 k s = freshPosition w k s" for k s
    by (simp add: w1_def freshPosition_def)
  have ne: "guard \<or> refPositions w1 \<noteq> [] \<or> lastBase w1 \<noteq> CHR ''C'' \<or> rest = [] \<or> hd rest \<noteq> CHR ''G''"
    by (simp add: w1_def)
  have fl: "fixLast (lastBase w1) rest (refPositions w1)
      = fixLast (lastBase w) (b # rest) (refPositions w)
        @ [freshPosition w i (strandCG (lastBase w) (b # rest) 0)]"
    by (simp add: w1_def fixLast_snoc_fresh strandCG_0 s0_def)
  have lb: "lastBase w1 = b" by (simp add: w1_def)
  show ?case
    unfolding step Cons.IH [OF ne, of "Suc i"] fp fl
    by (simp add: lb w1_def map_upt_shift strandCG_Suc del: upt_Suc)
qed

lemma fixLast_length: "length (fixLast lb rest ps) = length ps"
  by (simp add: fixLast_def set_back_def)

lemma fixLast_nth:
  assumes "k < length ps"
  shows "fixLast lb rest ps ! k
     = (if Suc k = length ps \<and> rest \<noteq> [] \<and> lb = CHR ''C'' \<and> hd rest = CHR ''G''
        then set_strand CHR ''+'' (ps ! k) else ps ! k)"
proof (cases "ps \<noteq> [] \<and> rest \<noteq> [] \<and> lb = CHR ''C'' \<and> hd rest = CHR ''G''")
  case False
  then show ?thesis using assms by (auto simp: fixLast_def)
next
  case True
  then have f: "fixLast lb rest ps = butlast ps @ [set_strand CHR ''+'' (last ps)]"
    by (simp add: fixLast_def set_back_def)
  show ?thesis
  proof (cases "Suc k = length ps")
    case True
    then have "k = length (butlast ps)" by simp
    then have "fixLast lb rest ps ! k = set_strand CHR ''+'' (last ps)"
      unfolding f by (simp add: nth_append)
    moreover have "last ps = ps ! (length ps - 1)"
      using assms by (intro last_conv_nth) auto
    then have "last ps = ps ! k" using True by (metis diff_Suc_1)
    ultimately show ?thesis using True \<open>ps \<noteq> [] \<and> rest \<noteq> [] \<and> lb = CHR ''C'' \<and> hd rest = CHR ''G''\<close>
      by simp
  next
    case False
    then have "k < length (butlast ps)" using assms by simp
    then have "fixLast lb rest ps ! k = ps ! k"
      unfolding f by (simp add: nth_append nth_butlast)
    then show ?thesis using False by simp
  qed
qed

lemma strandNonCG_iff:
  "(strandNonCG g b = CHR ''+'' \<longleftrightarrow> b = convertFrom g)"
  "(strandNonCG g b = CHR ''-'' \<longleftrightarrow> b = convertFromComplement g \<and> b \<noteq> convertFrom g)"
  "(strandNonCG g b = CHR ''?'' \<longleftrightarrow> b \<noteq> convertFrom g \<and> b \<noteq> convertFromComplement g)"
  by (auto simp: strandNonCG_def)

lemma strandCG_iff:
  "(strandCG lb line i = CHR ''-'' \<longleftrightarrow>
      (if i = 0 then lb else line ! (i - 1)) = CHR ''C'' \<and> line ! i = CHR ''G'')"
  "(strandCG lb line i = CHR ''+'' \<longleftrightarrow>
      Suc i < length line \<and> line ! i = CHR ''C'' \<and> line ! Suc i = CHR ''G'')"
  by (auto simp: strandCG_def)

lemma appendRefLoop_back_of_empty:
  assumes "CG_only g" "\<not> guard" "refPositions w = []" "lastBase w = CHR ''C''"
    and "rest \<noteq> []" "hd rest = CHR ''G''"
  shows "appendRefLoop g guard rest i w = None"
  using assms by (cases rest) simp_all

text \<open>
  C6.  For a reference line fed to \<open>appendRefPosition\<close> the call appends one initialized
  position per base, with the chromosome of the window and the 1-based location
  \<open>w_location + i + 1\<close>, advances \<open>w_location\<close> by the length of the line and leaves the
  last base of the line in \<open>lastBase\<close>.  Outside CG-only mode the strand of the fresh
  position is \<open>+\<close> if and only if its base is \<open>convertFrom\<close>, \<open>-\<close> if and only if its
  base is \<open>convertFromComplement\<close> (the complement of a base being another base), and
  \<open>?\<close> if and only if it is neither.  In CG-only mode the fresh position is \<open>-\<close> if and
  only if the base before it (\<open>lastBase\<close> for the first base of the line) is C and its
  base is G, and the position before it is then set to \<open>+\<close>: a fresh position is \<open>+\<close> at
  the end of the call if and only if its base is C and the next base of the line is G,
  and of the positions already in the window only the last changes, to \<open>+\<close>, if and
  only if \<open>lastBase\<close> is C and the line starts with G; every other strand stays \<open>?\<close>.
  This holds for the three headers on every window, the empty one of a chromosome's
  first line too, but for the one call in which the two \<open>position_3n_table_backup\<close>
  headers evaluate \<open>refPositions.back()\<close> on an empty vector: CG-only mode, an empty
  window, \<open>lastBase\<close> C and a line that starts with G (\<open>lastBase\<close> is X at the start of
  a chromosome).
\<close>

theorem appendRefPosition_strands:
  assumes "\<not> (CG_only g \<and> \<not> guard \<and> refPositions w = [] \<and> lastBase w = CHR ''C''
              \<and> line \<noteq> [] \<and> hd line = CHR ''G'')"
  shows "\<exists>w'. appendRefPosition g guard line w = Some w'
     \<and> length (refPositions w') = length (refPositions w) + length line
     \<and> w_chromosome w' = w_chromosome w
     \<and> w_location w' = w_location w + int (length line)
     \<and> lastBase w' = last (lastBase w # line)
     \<and> (\<forall>i<length line. refPositions w' ! (length (refPositions w) + i)
            = freshPosition w i
                (if CG_only g then strandCG (lastBase w) line i else strandNonCG g (line ! i)))
     \<and> (\<forall>k<length (refPositions w). refPositions w' ! k
            = (if CG_only g \<and> Suc k = length (refPositions w) \<and> line \<noteq> []
                  \<and> lastBase w = CHR ''C'' \<and> hd line = CHR ''G''
               then set_strand CHR ''+'' (refPositions w ! k) else refPositions w ! k))
     \<and> (strandNonCG g b = CHR ''+'' \<longleftrightarrow> b = convertFrom g)
     \<and> (convertFromComplement g \<noteq> convertFrom g
          \<longrightarrow> (strandNonCG g b = CHR ''-'' \<longleftrightarrow> b = convertFromComplement g))
     \<and> (strandNonCG g b = CHR ''?'' \<longleftrightarrow> b \<noteq> convertFrom g \<and> b \<noteq> convertFromComplement g)
     \<and> (strandCG lb line j = CHR ''-'' \<longleftrightarrow>
          (if j = 0 then lb else line ! (j - 1)) = CHR ''C'' \<and> line ! j = CHR ''G'')
     \<and> (strandCG lb line j = CHR ''+'' \<longleftrightarrow>
          Suc j < length line \<and> line ! j = CHR ''C'' \<and> line ! Suc j = CHR ''G'')
     \<and> (strandCG lb line j = CHR ''?'' \<longleftrightarrow>
          \<not> ((if j = 0 then lb else line ! (j - 1)) = CHR ''C'' \<and> line ! j = CHR ''G'')
          \<and> \<not> (Suc j < length line \<and> line ! j = CHR ''C'' \<and> line ! Suc j = CHR ''G''))"
proof -
  have minus: "convertFromComplement g \<noteq> convertFrom g
          \<longrightarrow> (strandNonCG g b = CHR ''-'' \<longleftrightarrow> b = convertFromComplement g)"
    using strandNonCG_iff(2) [of g b] by auto
  have quest: "strandCG lb line j = CHR ''?'' \<longleftrightarrow>
          \<not> ((if j = 0 then lb else line ! (j - 1)) = CHR ''C'' \<and> line ! j = CHR ''G'')
          \<and> \<not> (Suc j < length line \<and> line ! j = CHR ''C'' \<and> line ! Suc j = CHR ''G'')"
    by (auto simp: strandCG_def)
  note strands = strandNonCG_iff(1) [of g b] minus strandNonCG_iff(3) [of g b]
    strandCG_iff [of lb line j] quest
  show ?thesis
  proof (cases "CG_only g")
    case False
    define w' where "w' = w\<lparr>refPositions := refPositions w
                   @ map (\<lambda>j. freshPosition w j (strandNonCG g (line ! j))) [0..<length line],
                lastBase := last (lastBase w # line),
                w_location := w_location w + int (length line)\<rparr>"
    have r: "appendRefPosition g guard line w = Some w'"
      using appendRefLoop_nonCG [OF False, of guard line 0 w]
      by (simp add: appendRefPosition_def w'_def)
    have "refPositions w' ! (length (refPositions w) + i)
              = freshPosition w i (strandNonCG g (line ! i))" if "i < length line" for i
      using that by (simp add: w'_def)
    moreover have "refPositions w' ! k = refPositions w ! k" if "k < length (refPositions w)" for k
      using that by (simp add: w'_def nth_append)
    moreover have "length (refPositions w') = length (refPositions w) + length line"
      "w_chromosome w' = w_chromosome w" "w_location w' = w_location w + int (length line)"
      "lastBase w' = last (lastBase w # line)"
      by (simp_all add: w'_def)
    ultimately show ?thesis
      using r False strands by (intro exI [of _ w']) simp
  next
    case True
    define w' where "w' = w\<lparr>refPositions := fixLast (lastBase w) line (refPositions w)
                   @ map (\<lambda>j. freshPosition w j (strandCG (lastBase w) line j)) [0..<length line],
                lastBase := last (lastBase w # line),
                w_location := w_location w + int (length line)\<rparr>"
    have d: "guard \<or> refPositions w \<noteq> [] \<or> lastBase w \<noteq> CHR ''C'' \<or> line = [] \<or> hd line \<noteq> CHR ''G''"
      using assms True by blast
    have r: "appendRefPosition g guard line w = Some w'"
      using appendRefLoop_CG [OF True d, of 0]
      by (simp add: appendRefPosition_def w'_def)
    have "refPositions w' ! (length (refPositions w) + i)
              = freshPosition w i (strandCG (lastBase w) line i)" if "i < length line" for i
      using that fixLast_length [of "lastBase w" line "refPositions w"]
      by (simp add: w'_def nth_append)
    moreover have "refPositions w' ! k
              = (if Suc k = length (refPositions w) \<and> line \<noteq> []
                    \<and> lastBase w = CHR ''C'' \<and> hd line = CHR ''G''
                 then set_strand CHR ''+'' (refPositions w ! k) else refPositions w ! k)"
      if "k < length (refPositions w)" for k
      using that fixLast_nth [OF that, of "lastBase w" line]
      by (simp add: w'_def nth_append fixLast_length)
    moreover have "length (refPositions w') = length (refPositions w) + length line"
      "w_chromosome w' = w_chromosome w" "w_location w' = w_location w + int (length line)"
      "lastBase w' = last (lastBase w # line)"
      by (simp_all add: w'_def fixLast_length)
    ultimately show ?thesis
      using r True strands by (intro exI [of _ w']) simp
  qed
qed

theorem appendRefPosition_strands_witness:
  "(\<exists>w'. appendRefPosition globalsCT False ''ACGT'' window_c1 = Some w'
        \<and> length (refPositions w') = 4 \<and> w_location w' = 4 \<and> lastBase w' = CHR ''T''
        \<and> refPositions w' ! 0 = freshPosition window_c1 0 CHR ''?''
        \<and> refPositions w' ! 1 = freshPosition window_c1 1 CHR ''+''
        \<and> refPositions w' ! 2 = freshPosition window_c1 2 CHR ''-''
        \<and> refPositions w' ! 3 = freshPosition window_c1 3 CHR ''?'')
   \<and> (\<exists>w'. appendRefPosition (globalsCT\<lparr>CG_only := True\<rparr>) False ''GC''
               (window_c1\<lparr>refPositions := [freshPosition window_c1 0 CHR ''?''],
                          w_location := 1, lastBase := CHR ''C''\<rparr>) = Some w'
        \<and> length (refPositions w') = 3
        \<and> refPositions w' ! 0 = freshPosition window_c1 0 CHR ''+''
        \<and> refPositions w' ! 1 = freshPosition window_c1 1 CHR ''-''
        \<and> refPositions w' ! 2 = freshPosition window_c1 2 CHR ''?'')
   \<and> (\<exists>w'. appendRefPosition (globalsCT\<lparr>CG_only := True\<rparr>) False ''CG'' window_c1 = Some w'
        \<and> length (refPositions w') = 2
        \<and> refPositions w' ! 0 = freshPosition window_c1 0 CHR ''+''
        \<and> refPositions w' ! 1 = freshPosition window_c1 1 CHR ''-'')"
proof -
  have h1: "\<not> (CG_only globalsCT \<and> \<not> False \<and> refPositions window_c1 = []
      \<and> lastBase window_c1 = CHR ''C'' \<and> ''ACGT'' \<noteq> [] \<and> hd ''ACGT'' = CHR ''G'')"
    by (simp add: globalsCT_def globals0_def)
  have cg: "\<not> CG_only globalsCT" and e1: "refPositions window_c1 = []"
    by (simp_all add: globalsCT_def globals0_def window_c1_def)
  have cd: "convertFromComplement globalsCT \<noteq> convertFrom globalsCT"
    by (simp add: globalsCT_def)
  have cf: "convertFrom globalsCT = CHR ''C''" "convertFromComplement globalsCT = CHR ''G''"
    by (simp_all add: globalsCT_def)
  obtain w1 where w1: "appendRefPosition globalsCT False ''ACGT'' window_c1 = Some w1"
    "length (refPositions w1) = length (refPositions window_c1) + length ''ACGT''"
    "w_location w1 = w_location window_c1 + int (length ''ACGT'')"
    "lastBase w1 = last (lastBase window_c1 # ''ACGT'')"
    "\<forall>i<length ''ACGT''. refPositions w1 ! (length (refPositions window_c1) + i)
            = freshPosition window_c1 i
                (if CG_only globalsCT then strandCG (lastBase window_c1) ''ACGT'' i
                 else strandNonCG globalsCT (''ACGT'' ! i))"
    using appendRefPosition_strands [OF h1, where b = "CHR ''G''" and lb = "CHR ''X''" and j = 0]
    by (elim exE conjE) (rule that, assumption+)
  have sA: "strandNonCG globalsCT CHR ''A'' = CHR ''?''"
    using appendRefPosition_strands [OF h1, where b = "CHR ''A''" and lb = "CHR ''X''" and j = 0]
    by (elim exE conjE) (simp add: cf)
  have sC: "strandNonCG globalsCT CHR ''C'' = CHR ''+''"
    using appendRefPosition_strands [OF h1, where b = "CHR ''C''" and lb = "CHR ''X''" and j = 0]
    by (elim exE conjE) (simp add: cf)
  have sG: "strandNonCG globalsCT CHR ''G'' = CHR ''-''"
    using appendRefPosition_strands [OF h1, where b = "CHR ''G''" and lb = "CHR ''X''" and j = 0] cd
    by (elim exE conjE) (simp add: cf)
  have sT: "strandNonCG globalsCT CHR ''T'' = CHR ''?''"
    using appendRefPosition_strands [OF h1, where b = "CHR ''T''" and lb = "CHR ''X''" and j = 0]
    by (elim exE conjE) (simp add: cf)
  have n1: "refPositions w1 ! 0 = freshPosition window_c1 0 CHR ''?''"
    "refPositions w1 ! 1 = freshPosition window_c1 1 CHR ''+''"
    "refPositions w1 ! 2 = freshPosition window_c1 2 CHR ''-''"
    "refPositions w1 ! 3 = freshPosition window_c1 3 CHR ''?''"
    using w1(5) [rule_format, of 0] w1(5) [rule_format, of 1] w1(5) [rule_format, of 2]
      w1(5) [rule_format, of 3]
    by (simp_all add: cg e1 sA sC sG sT numeral_2_eq_2 numeral_3_eq_3)
  have a: "\<exists>w'. appendRefPosition globalsCT False ''ACGT'' window_c1 = Some w'
        \<and> length (refPositions w') = 4 \<and> w_location w' = 4 \<and> lastBase w' = CHR ''T''
        \<and> refPositions w' ! 0 = freshPosition window_c1 0 CHR ''?''
        \<and> refPositions w' ! 1 = freshPosition window_c1 1 CHR ''+''
        \<and> refPositions w' ! 2 = freshPosition window_c1 2 CHR ''-''
        \<and> refPositions w' ! 3 = freshPosition window_c1 3 CHR ''?''"
    using w1(1-4) n1 by (intro exI [of _ w1]) (simp add: window_c1_def)
  define wC where "wC = window_c1\<lparr>refPositions := [freshPosition window_c1 0 CHR ''?''],
                          w_location := 1, lastBase := CHR ''C''\<rparr>"
  have h2: "\<not> (CG_only (globalsCT\<lparr>CG_only := True\<rparr>) \<and> \<not> False \<and> refPositions wC = []
      \<and> lastBase wC = CHR ''C'' \<and> ''GC'' \<noteq> [] \<and> hd ''GC'' = CHR ''G'')"
    by (simp add: wC_def)
  obtain w2 where w2: "appendRefPosition (globalsCT\<lparr>CG_only := True\<rparr>) False ''GC'' wC = Some w2"
    "length (refPositions w2) = length (refPositions wC) + length ''GC''"
    "\<forall>i<length ''GC''. refPositions w2 ! (length (refPositions wC) + i)
            = freshPosition wC i
                (if CG_only (globalsCT\<lparr>CG_only := True\<rparr>) then strandCG (lastBase wC) ''GC'' i
                 else strandNonCG (globalsCT\<lparr>CG_only := True\<rparr>) (''GC'' ! i))"
    "\<forall>k<length (refPositions wC). refPositions w2 ! k
            = (if CG_only (globalsCT\<lparr>CG_only := True\<rparr>) \<and> Suc k = length (refPositions wC)
                  \<and> ''GC'' \<noteq> [] \<and> lastBase wC = CHR ''C'' \<and> hd ''GC'' = CHR ''G''
               then set_strand CHR ''+'' (refPositions wC ! k) else refPositions wC ! k)"
    using appendRefPosition_strands [OF h2, where b = "CHR ''G''" and lb = "CHR ''X''" and j = 0]
    by (elim exE conjE) (rule that, assumption+)
  have n2: "refPositions w2 ! 0 = freshPosition window_c1 0 CHR ''+''"
    "refPositions w2 ! 1 = freshPosition window_c1 1 CHR ''-''"
    "refPositions w2 ! 2 = freshPosition window_c1 2 CHR ''?''"
    using w2(4) [rule_format, of 0] w2(3) [rule_format, of 0] w2(3) [rule_format, of 1]
    by (simp_all add: wC_def window_c1_def strandCG_def freshPosition_def set_strand_def
        numeral_2_eq_2)
  have b: "\<exists>w'. appendRefPosition (globalsCT\<lparr>CG_only := True\<rparr>) False ''GC'' wC = Some w'
        \<and> length (refPositions w') = 3
        \<and> refPositions w' ! 0 = freshPosition window_c1 0 CHR ''+''
        \<and> refPositions w' ! 1 = freshPosition window_c1 1 CHR ''-''
        \<and> refPositions w' ! 2 = freshPosition window_c1 2 CHR ''?''"
    using w2(1,2) n2 by (intro exI [of _ w2]) (simp add: wC_def)
  have h3: "\<not> (CG_only (globalsCT\<lparr>CG_only := True\<rparr>) \<and> \<not> False \<and> refPositions window_c1 = []
      \<and> lastBase window_c1 = CHR ''C'' \<and> ''CG'' \<noteq> [] \<and> hd ''CG'' = CHR ''G'')"
    by (simp add: window_c1_def)
  obtain w3 where w3: "appendRefPosition (globalsCT\<lparr>CG_only := True\<rparr>) False ''CG'' window_c1 = Some w3"
    "length (refPositions w3) = length (refPositions window_c1) + length ''CG''"
    "\<forall>i<length ''CG''. refPositions w3 ! (length (refPositions window_c1) + i)
            = freshPosition window_c1 i
                (if CG_only (globalsCT\<lparr>CG_only := True\<rparr>)
                 then strandCG (lastBase window_c1) ''CG'' i
                 else strandNonCG (globalsCT\<lparr>CG_only := True\<rparr>) (''CG'' ! i))"
    using appendRefPosition_strands [OF h3, where b = "CHR ''G''" and lb = "CHR ''X''" and j = 0]
    by (elim exE conjE) (rule that, assumption+)
  have n3: "refPositions w3 ! 0 = freshPosition window_c1 0 CHR ''+''"
    "refPositions w3 ! 1 = freshPosition window_c1 1 CHR ''-''"
    using w3(3) [rule_format, of 0] w3(3) [rule_format, of 1]
    by (simp_all add: window_c1_def strandCG_def)
  have c: "\<exists>w'. appendRefPosition (globalsCT\<lparr>CG_only := True\<rparr>) False ''CG'' window_c1 = Some w'
        \<and> length (refPositions w') = 2
        \<and> refPositions w' ! 0 = freshPosition window_c1 0 CHR ''+''
        \<and> refPositions w' ! 1 = freshPosition window_c1 1 CHR ''-''"
    using w3(1,2) n3 by (intro exI [of _ w3]) (simp add: window_c1_def)
  show ?thesis using a b c unfolding wC_def by (intro conjI)
qed

end
